theory Spec2Isabelle
  imports Main "HOL-Library.Word" "HOL-Library.Signed_Division"
begin

unbundle bit_operations_syntax

section \<open>Data model of BigInt.c\<close>

text \<open>
  \<^verbatim>\<open>unsigned int\<close> is a 32-bit word (\<^verbatim>\<open>sizeof(unsigned int) = 4\<close>); addition wraps.
  Pointers are addresses into two stores, one of chunks and one of BigInt headers;
  \<^verbatim>\<open>NULL\<close> is \<open>None\<close>. \<^verbatim>\<open>malloc\<close> is assumed to succeed; it returns the next
  unused address of its store. An \<^verbatim>\<open>int\<close> (a count or an index) is an unbounded integer:
  no count of chunks or words comes near \<open>2 ^ 31\<close>. Dereferencing \<^verbatim>\<open>NULL\<close> and indexing
  an array outside its allocation are results of the type \<open>error\<close>.
\<close>

type_synonym uint = "32 word"

text \<open>
  Modelled from the spec: \<^verbatim>\<open>struct Chunk\<close> is declared in Chunk.h, which is not part of
  the sources. The fields are the ones BigInt.c reads and writes: \<^verbatim>\<open>prev\<close>, \<^verbatim>\<open>next\<close>,
  \<^verbatim>\<open>length\<close> (the valid word count) and the array \<^verbatim>\<open>value\<close> of \<^verbatim>\<open>CHUNKSIZE\<close> words.
\<close>

record Chunk =
  chunk_prev :: "nat option"
  chunk_next :: "nat option"
  chunk_length :: int
  chunk_value :: "uint list"

record BigInt =
  bigint_first :: "nat option"
  bigint_last :: "nat option"
  bigint_parity :: int
  bigint_length :: int

record Iterator =
  it_obj :: "nat option"
  it_chunk :: "nat option"
  it_index :: int

record heap =
  chunks :: "Chunk list"
  objs :: "BigInt list"

datatype error = NullDeref | BadPointer | OutOfBounds | DivByZero | AllocationFailure

section \<open>Sequencing of fallible and of possibly non-returning steps\<close>

definition bindE :: "error + 'a \<Rightarrow> ('a \<Rightarrow> error + 'b) \<Rightarrow> error + 'b" where
  "bindE m f = (case m of Inl e \<Rightarrow> Inl e | Inr x \<Rightarrow> f x)"

definition liftE :: "error + 'a \<Rightarrow> ('a \<Rightarrow> (error + 'b) option) \<Rightarrow> (error + 'b) option" where
  "liftE m f = (case m of Inl e \<Rightarrow> Some (Inl e) | Inr x \<Rightarrow> f x)"

definition bindP ::
  "(error + 'a) option \<Rightarrow> ('a \<Rightarrow> (error + 'b) option) \<Rightarrow> (error + 'b) option" where
  "bindP m f = (case m of None \<Rightarrow> None | Some (Inl e) \<Rightarrow> Some (Inl e) | Some (Inr x) \<Rightarrow> f x)"

lemma liftE_mono [partial_function_mono]:
  assumes "\<And>y. mono_option (\<lambda>f. C y f)"
  shows "mono_option (\<lambda>f. liftE m (\<lambda>y. C y f))"
  unfolding liftE_def by (cases m) (simp_all add: assms option.const_mono)

lemma bindP_mono [partial_function_mono]:
  assumes mb: "mono_option B" and mc: "\<And>y. mono_option (\<lambda>f. C y f)"
  shows "mono_option (\<lambda>f. bindP (B f) (\<lambda>y. C y f))"
proof -
  have eq: "\<And>f. bindP (B f) (\<lambda>y. C y f) =
      Option.bind (B f) (\<lambda>r. case r of Inl e \<Rightarrow> Some (Inl e) | Inr x \<Rightarrow> C x f)"
    by (auto simp: bindP_def split: option.splits sum.splits)
  have "\<And>r. mono_option (\<lambda>f. case r of Inl e \<Rightarrow> Some (Inl e) | Inr x \<Rightarrow> C x f)"
    subgoal for r by (cases r) (simp_all add: mc option.const_mono)
    done
  then show ?thesis unfolding eq
    by (intro partial_function_mono mb)
qed

section \<open>Memory access\<close>

definition get_chunk :: "heap \<Rightarrow> nat option \<Rightarrow> error + Chunk" where
  "get_chunk h p = (case p of None \<Rightarrow> Inl NullDeref
     | Some a \<Rightarrow> if a < length (chunks h) then Inr (chunks h ! a) else Inl BadPointer)"

definition upd_chunk :: "heap \<Rightarrow> nat option \<Rightarrow> (Chunk \<Rightarrow> Chunk) \<Rightarrow> error + heap" where
  "upd_chunk h p f = (case p of None \<Rightarrow> Inl NullDeref
     | Some a \<Rightarrow> if a < length (chunks h)
         then Inr (h\<lparr>chunks := (chunks h)[a := f (chunks h ! a)]\<rparr>) else Inl BadPointer)"

definition get_obj :: "heap \<Rightarrow> nat option \<Rightarrow> error + BigInt" where
  "get_obj h p = (case p of None \<Rightarrow> Inl NullDeref
     | Some a \<Rightarrow> if a < length (objs h) then Inr (objs h ! a) else Inl BadPointer)"

definition upd_obj :: "heap \<Rightarrow> nat option \<Rightarrow> (BigInt \<Rightarrow> BigInt) \<Rightarrow> error + heap" where
  "upd_obj h p f = (case p of None \<Rightarrow> Inl NullDeref
     | Some a \<Rightarrow> if a < length (objs h)
         then Inr (h\<lparr>objs := (objs h)[a := f (objs h ! a)]\<rparr>) else Inl BadPointer)"

definition array_get :: "'a list \<Rightarrow> int \<Rightarrow> error + 'a" where
  "array_get xs i = (if 0 \<le> i \<and> i < int (length xs) then Inr (xs ! nat i) else Inl OutOfBounds)"

definition array_set :: "'a list \<Rightarrow> int \<Rightarrow> 'a \<Rightarrow> error + 'a list" where
  "array_set xs i v =
     (if 0 \<le> i \<and> i < int (length xs) then Inr (xs[nat i := v]) else Inl OutOfBounds)"

section \<open>The chunk primitive\<close>

text \<open>
  Modelled from the spec: \<^verbatim>\<open>newChunk\<close> is defined in the chunk layer, which is not part
  of the sources. The spec: a fresh chunk, valid length 0, capacity C, word array
  zero-initialized, unlinked. \<open>C\<close> is \<^verbatim>\<open>CHUNKSIZE\<close>, a parameter of every operation.
\<close>

definition newChunk :: "nat \<Rightarrow> heap \<Rightarrow> heap \<times> nat option" where
  "newChunk C h =
     (h\<lparr>chunks := chunks h @
         [\<lparr>chunk_prev = None, chunk_next = None, chunk_length = 0,
           chunk_value = replicate C 0\<rparr>]\<rparr>,
      Some (length (chunks h)))"

text \<open>
  Modelled from the spec: \<^verbatim>\<open>trimChunk\<close> is defined in the chunk layer, which is not part
  of the sources. The spec: it detaches and returns the sub-chain starting at the chunk's
  successor, leaving the chunk as the new chain tail. The spec says nothing of an absent
  chunk; the model then detaches nothing and returns \<^verbatim>\<open>NULL\<close>.
\<close>

definition trimChunk :: "heap \<Rightarrow> nat option \<Rightarrow> error + heap \<times> nat option" where
  "trimChunk h p = (case p of None \<Rightarrow> Inr (h, None)
     | Some a \<Rightarrow> bindE (get_chunk h p) (\<lambda>c.
         case chunk_next c of None \<Rightarrow> Inr (h, None)
         | Some q \<Rightarrow>
             bindE (upd_chunk h (Some q) (\<lambda>d. d\<lparr>chunk_prev := None\<rparr>)) (\<lambda>h1.
             bindE (upd_chunk h1 p (\<lambda>d. d\<lparr>chunk_next := None\<rparr>)) (\<lambda>h2.
             Inr (h2, Some q)))))"

section \<open>The number container\<close>

definition newBigInt :: "nat \<Rightarrow> heap \<Rightarrow> error + heap \<times> nat option" where
  "newBigInt C h =
     (let self = Some (length (objs h));
          (h1, chunk) = newChunk C h;
          h2 = h1\<lparr>objs := objs h1 @
                 [\<lparr>bigint_first = chunk, bigint_last = chunk,
                   bigint_parity = 1, bigint_length = 1\<rparr>]\<rparr>
      in bindE (upd_chunk h2 chunk
                 (\<lambda>c. c\<lparr>chunk_prev := None, chunk_next := None, chunk_length := 1\<rparr>)) (\<lambda>h3.
         bindE (get_chunk h3 chunk) (\<lambda>c.
         bindE (array_set (chunk_value c) 0 0) (\<lambda>v.
         bindE (upd_chunk h3 chunk (\<lambda>c. c\<lparr>chunk_value := v\<rparr>)) (\<lambda>h4.
         Inr (h4, self))))))"

definition lengthBigInt :: "heap \<Rightarrow> nat option \<Rightarrow> error + int" where
  "lengthBigInt h self = (case self of None \<Rightarrow> Inr 0
     | Some a \<Rightarrow> bindE (get_obj h self) (\<lambda>b. Inr (bigint_length b)))"

text \<open>\<^verbatim>\<open>append\<close> of BigInt.c; the result 1 is its early return.\<close>

definition append_chunk :: "heap \<Rightarrow> nat option \<Rightarrow> nat option \<Rightarrow> error + heap \<times> int" where
  "append_chunk h self chunk =
     (if self = None \<or> chunk = None then Inr (h, 1)
      else
        bindE (upd_obj h self (\<lambda>b. b\<lparr>bigint_length := bigint_length b + 1\<rparr>)) (\<lambda>h1.
        bindE (get_obj h1 self) (\<lambda>b.
        bindE (upd_chunk h1 chunk (\<lambda>c. c\<lparr>chunk_prev := bigint_last b\<rparr>)) (\<lambda>h2.
        bindE (get_obj h2 self) (\<lambda>b.
        bindE (upd_chunk h2 (bigint_last b) (\<lambda>c. c\<lparr>chunk_next := chunk\<rparr>)) (\<lambda>h3.
        bindE (upd_obj h3 self (\<lambda>b. b\<lparr>bigint_last := chunk\<rparr>)) (\<lambda>h4.
        Inr (h4, 0))))))))"


subsection \<open>setValue\<close>

text \<open>The trimming loop \<^verbatim>\<open>while (i < numChunks && p) p = p->next;\<close> (its body leaves \<open>i\<close> as it is).\<close>

partial_function (option) setValue_trim ::
  "heap \<Rightarrow> int \<Rightarrow> int \<Rightarrow> nat option \<Rightarrow> (error + nat option) option" where
  "setValue_trim h i numChunks p =
     (if i < numChunks \<and> p \<noteq> None
      then liftE (get_chunk h p) (\<lambda>c. setValue_trim h i numChunks (chunk_next c))
      else Some (Inr p))"

text \<open>The extension loop \<^verbatim>\<open>while (self->length < numChunks) append(self, newChunk());\<close>.\<close>

partial_function (option) setValue_extend ::
  "nat \<Rightarrow> heap \<Rightarrow> nat option \<Rightarrow> int \<Rightarrow> (error + heap) option" where
  "setValue_extend C h self numChunks =
     liftE (get_obj h self) (\<lambda>b.
       if bigint_length b < numChunks
       then (let (h1, chunk) = newChunk C h
             in liftE (append_chunk h1 self chunk) (\<lambda>(h2, r). setValue_extend C h2 self numChunks))
       else Some (Inr h))"

text \<open>The inner \<^verbatim>\<open>for\<close> loop copying into one chunk; it returns the chunk and \<open>arrayIndex\<close>.\<close>

function setValue_copy :: "Chunk \<Rightarrow> uint list \<Rightarrow> int \<Rightarrow> int \<Rightarrow> error + Chunk \<times> int" where
  "setValue_copy c val chunkIndex arrayIndex =
     (if chunkIndex < chunk_length c
      then (case array_get val arrayIndex of Inl e \<Rightarrow> Inl e
            | Inr w \<Rightarrow>
                (case array_set (chunk_value c) chunkIndex w of Inl e \<Rightarrow> Inl e
                 | Inr v \<Rightarrow>
                     setValue_copy (c\<lparr>chunk_value := v\<rparr>) val (chunkIndex + 1) (arrayIndex + 1)))
      else Inr (c, arrayIndex))"
  by pat_completeness auto
termination
  by (relation "measure (\<lambda>(c, val, chunkIndex, arrayIndex). nat (chunk_length c - chunkIndex))")
    auto

text \<open>
  The loop \<^verbatim>\<open>while (chunk)\<close>. \<^verbatim>\<open>MIN(CHUNKSIZE, length)\<close> expands to
  \<^verbatim>\<open>CHUNKSIZE < length ? CHUNKSIZE : length\<close>; \<open>len\<close> is the parameter \<^verbatim>\<open>length\<close>, which
  the loop never changes.
\<close>

partial_function (option) setValue_fill ::
  "nat \<Rightarrow> heap \<Rightarrow> int \<Rightarrow> uint list \<Rightarrow> nat option \<Rightarrow> int \<Rightarrow> (error + heap) option" where
  "setValue_fill C h len val chunk arrayIndex =
     (case chunk of None \<Rightarrow> Some (Inr h)
      | Some a \<Rightarrow>
          liftE (upd_chunk h chunk
                  (\<lambda>c. c\<lparr>chunk_length := (if int C < len then int C else len)\<rparr>)) (\<lambda>h1.
          liftE (get_chunk h1 chunk) (\<lambda>c.
          liftE (setValue_copy c val 0 arrayIndex) (\<lambda>(c1, arrayIndex1).
          liftE (upd_chunk h1 chunk (\<lambda>_. c1)) (\<lambda>h2.
          setValue_fill C h2 len val (chunk_next c1) arrayIndex1)))))"

text \<open>
  \<^verbatim>\<open>length / CHUNKSIZE\<close> and \<^verbatim>\<open>length % CHUNKSIZE\<close> truncate towards zero (\<open>sdiv\<close>,
  \<open>smod\<close>). The array \<^verbatim>\<open>value\<close> is a list as long as its allocation; reading past it is
  \<open>OutOfBounds\<close>. The result \<open>1\<close> is the \<^verbatim>\<open>ERROR\<close> return.
\<close>

definition setValue ::
  "nat \<Rightarrow> heap \<Rightarrow> nat option \<Rightarrow> int \<Rightarrow> uint list option \<Rightarrow> (error + heap \<times> int) option" where
  "setValue C h self len val =
     (case val of None \<Rightarrow> Some (Inr (h, 1))
      | Some ws \<Rightarrow>
         if self = None then Some (Inr (h, 1))
         else if C = 0 then Some (Inl DivByZero)
         else
           let numChunks0 = len sdiv int C;
               numChunks = (if len smod int C \<noteq> 0 then numChunks0 + 1 else numChunks0)
           in
           liftE (get_obj h self) (\<lambda>b.
           bindP (if bigint_length b > numChunks
                  then bindP (setValue_trim h 0 numChunks (bigint_first b)) (\<lambda>p.
                       liftE (upd_obj h self (\<lambda>b. b\<lparr>bigint_last := p\<rparr>)) (\<lambda>h1.
                       liftE (trimChunk h1 p) (\<lambda>(h2, detached).
                       liftE (upd_obj h2 self (\<lambda>b. b\<lparr>bigint_length := numChunks\<rparr>)) (\<lambda>h3.
                       Some (Inr h3)))))
                  else setValue_extend C h self numChunks) (\<lambda>h4.
           liftE (get_obj h4 self) (\<lambda>b4.
           bindP (setValue_fill C h4 len ws (bigint_first b4) 0) (\<lambda>h5.
           Some (Inr (h5, 0)))))))"

subsection \<open>toString\<close>

definition charsPerUint :: int where
  "charsPerUint = 2 * 4"

definition hex :: "char list" where
  "hex = ''0123456789abcdef''"

text \<open>
  The output buffer is a list of the allocated size; a slot is \<open>None\<close> until it is written.
  Writing outside the allocation is \<open>OutOfBounds\<close>.
\<close>

function uintToHex_loop ::
  "char option list \<Rightarrow> int \<Rightarrow> int \<Rightarrow> uint \<Rightarrow> error + char option list" where
  "uintToHex_loop buf target i u =
     (if i < charsPerUint
      then (case array_get hex (uint (u AND 0x0f)) of Inl e \<Rightarrow> Inl e
            | Inr ch \<Rightarrow>
                (case array_set buf (target + i) (Some ch) of Inl e \<Rightarrow> Inl e
                 | Inr buf1 \<Rightarrow> uintToHex_loop buf1 target (i + 1) (drop_bit 4 u)))
      else Inr buf)"
  by pat_completeness auto
termination
  by (relation "measure (\<lambda>(buf, target, i, u). nat (charsPerUint - i))") auto

definition uintToHex :: "char option list \<Rightarrow> int \<Rightarrow> uint \<Rightarrow> error + char option list \<times> int" where
  "uintToHex buf target u =
     bindE (uintToHex_loop buf target 0 u) (\<lambda>buf1.
     bindE (array_set buf1 (target + charsPerUint) (Some (CHR 0x00))) (\<lambda>buf2.
     Inr (buf2, 0)))"

text \<open>The inner \<^verbatim>\<open>for\<close> loop over the words of one chunk; \<open>p\<close> is the offset of \<^verbatim>\<open>p\<close> in the buffer.\<close>

function toString_words ::
  "Chunk \<Rightarrow> int \<Rightarrow> char option list \<Rightarrow> int \<Rightarrow> error + char option list \<times> int" where
  "toString_words c index buf p =
     (if index < chunk_length c
      then (case array_get (chunk_value c) index of Inl e \<Rightarrow> Inl e
            | Inr w \<Rightarrow>
                (case uintToHex buf p w of Inl e \<Rightarrow> Inl e
                 | Inr (buf1, r) \<Rightarrow> toString_words c (index + 1) buf1 (p + charsPerUint)))
      else Inr (buf, p))"
  by pat_completeness auto
termination
  by (relation "measure (\<lambda>(c, index, buf, p). nat (chunk_length c - index))") auto

partial_function (option) toString_chunks ::
  "heap \<Rightarrow> nat option \<Rightarrow> char option list \<Rightarrow> int \<Rightarrow> (error + char option list) option" where
  "toString_chunks h chunk buf p =
     (case chunk of None \<Rightarrow> Some (Inr buf)
      | Some a \<Rightarrow>
          liftE (get_chunk h chunk) (\<lambda>c.
          liftE (toString_words c 0 buf p) (\<lambda>(buf1, p1).
          toString_chunks h (chunk_next c) buf1 p1)))"

text \<open>The buffer size \<^verbatim>\<open>int numChars = 1 + self->length * CHUNKSIZE;\<close>.\<close>

definition toString_numChars :: "nat \<Rightarrow> BigInt \<Rightarrow> int" where
  "toString_numChars C b = 1 + bigint_length b * int C"

text \<open>A negative \<open>numChars\<close> is a request \<^verbatim>\<open>malloc\<close> cannot serve.\<close>

definition toString :: "nat \<Rightarrow> heap \<Rightarrow> nat option \<Rightarrow> (error + char option list option) option" where
  "toString C h self =
     (case self of None \<Rightarrow> Some (Inr None)
      | Some a \<Rightarrow>
          liftE (get_obj h self) (\<lambda>b.
          let numChars = toString_numChars C b in
          if numChars < 0 then Some (Inl AllocationFailure)
          else bindP (toString_chunks h (bigint_first b) (replicate (nat numChars) None) 0)
                 (\<lambda>buf. Some (Inr (Some buf)))))"


section \<open>The cursor\<close>

text \<open>
  An \<^verbatim>\<open>Iterator\<close> is private to \<^verbatim>\<open>add\<close> and never shared, so it is passed as a value and
  returned updated. \<^verbatim>\<open>IT_next\<close> returns the updated iterator and whether its C result is
  non-\<^verbatim>\<open>NULL\<close>. Every iterator comes from \<^verbatim>\<open>iterate\<close> on a container that is not
  \<^verbatim>\<open>NULL\<close>, so the early returns of the cursor functions for a \<^verbatim>\<open>NULL\<close> iterator have no
  counterpart here.
\<close>

text \<open>The loop \<^verbatim>\<open>do { chunk = chunk->next; } while (chunk && !chunk->length);\<close> of \<^verbatim>\<open>IT_next\<close>.\<close>

partial_function (option) IT_next_skip :: "heap \<Rightarrow> nat option \<Rightarrow> (error + nat option) option" where
  "IT_next_skip h chunk =
     liftE (get_chunk h chunk) (\<lambda>c.
       case chunk_next c of None \<Rightarrow> Some (Inr None)
       | Some q \<Rightarrow>
           liftE (get_chunk h (chunk_next c)) (\<lambda>d.
             if chunk_length d = 0 then IT_next_skip h (chunk_next c)
             else Some (Inr (chunk_next c))))"

definition IT_next :: "heap \<Rightarrow> Iterator \<Rightarrow> (error + Iterator \<times> bool) option" where
  "IT_next h self =
     (if it_chunk self = None then Some (Inr (self, False))
      else
        let self1 = self\<lparr>it_index := it_index self + 1\<rparr> in
        liftE (get_chunk h (it_chunk self1)) (\<lambda>c.
          if it_index self1 \<ge> chunk_length c
          then bindP (IT_next_skip h (it_chunk self1)) (\<lambda>nx.
                 Some (Inr (self1\<lparr>it_index := 0, it_chunk := nx\<rparr>, nx \<noteq> None)))
          else Some (Inr (self1, True))))"

text \<open>
  The test \<^verbatim>\<open>!self->chunk && self->chunk->length < CHUNKSIZE\<close> reads the chunk only when
  the pointer is \<^verbatim>\<open>NULL\<close>.
\<close>

definition IT_next_with_extend ::
  "nat \<Rightarrow> heap \<Rightarrow> Iterator \<Rightarrow> (error + heap \<times> Iterator) option" where
  "IT_next_with_extend C h self =
     bindP (IT_next h self) (\<lambda>(self1, r).
       if \<not> r then
         liftE (get_obj h (it_obj self1)) (\<lambda>b.
         let self2 = self1\<lparr>it_chunk := bigint_last b\<rparr> in
         liftE (if it_chunk self2 = None
                then bindE (get_chunk h (it_chunk self2)) (\<lambda>c. Inr (chunk_length c < int C))
                else Inr False) (\<lambda>spare.
           if spare then
             liftE (get_chunk h (it_chunk self2)) (\<lambda>c.
             let self3 = self2\<lparr>it_index := chunk_length c\<rparr> in
             liftE (upd_chunk h (it_chunk self3)
                     (\<lambda>c. c\<lparr>chunk_length := chunk_length c + 1\<rparr>)) (\<lambda>h1.
             Some (Inr (h1, self3))))
           else
             (let (h1, chunk) = newChunk C h;
                  self3 = self2\<lparr>it_chunk := chunk\<rparr>
              in
              liftE (get_chunk h1 (it_chunk self3)) (\<lambda>c.
              liftE (array_set (chunk_value c) 0 0) (\<lambda>v.
              liftE (upd_chunk h1 (it_chunk self3) (\<lambda>c. c\<lparr>chunk_value := v\<rparr>)) (\<lambda>h2.
              liftE (upd_chunk h2 (it_chunk self3)
                      (\<lambda>c. c\<lparr>chunk_length := chunk_length c + 1\<rparr>)) (\<lambda>h3.
              let self4 = self3\<lparr>it_index := 0\<rparr> in
              liftE (append_chunk h3 (it_obj self4) (it_chunk self4)) (\<lambda>(h4, r).
              Some (Inr (h4, self4))))))))))
       else Some (Inr (h, self1)))"

definition IT_set :: "heap \<Rightarrow> Iterator \<Rightarrow> uint \<Rightarrow> error + heap" where
  "IT_set h self v = (case it_chunk self of None \<Rightarrow> Inr h
     | Some a \<Rightarrow>
         bindE (get_chunk h (it_chunk self)) (\<lambda>c.
         bindE (array_set (chunk_value c) (it_index self) v) (\<lambda>vs.
         upd_chunk h (it_chunk self) (\<lambda>c. c\<lparr>chunk_value := vs\<rparr>))))"

definition IT_get :: "heap \<Rightarrow> Iterator \<Rightarrow> error + uint" where
  "IT_get h self = (case it_chunk self of None \<Rightarrow> Inr 0
     | Some a \<Rightarrow>
         bindE (get_chunk h (it_chunk self)) (\<lambda>c.
         array_get (chunk_value c) (it_index self)))"

text \<open>The loop \<^verbatim>\<open>while (self->chunk && !self->chunk->length) IT_next(self);\<close> of \<^verbatim>\<open>iterate\<close>.\<close>

partial_function (option) iterate_skip :: "heap \<Rightarrow> Iterator \<Rightarrow> (error + Iterator) option" where
  "iterate_skip h self =
     (case it_chunk self of None \<Rightarrow> Some (Inr self)
      | Some a \<Rightarrow>
          liftE (get_chunk h (it_chunk self)) (\<lambda>c.
            if chunk_length c = 0
            then bindP (IT_next h self) (\<lambda>(self1, r). iterate_skip h self1)
            else Some (Inr self)))"

definition iterate :: "heap \<Rightarrow> nat option \<Rightarrow> (error + Iterator option) option" where
  "iterate h obj =
     (case obj of None \<Rightarrow> Some (Inr None)
      | Some a \<Rightarrow>
          liftE (get_obj h obj) (\<lambda>b.
          bindP (iterate_skip h \<lparr>it_obj = obj, it_chunk = bigint_first b, it_index = 0\<rparr>)
            (\<lambda>self. Some (Inr (Some self)))))"

section \<open>Addition\<close>

text \<open>The carry test of the main loop: the new carry from the sum \<open>sm\<close> and the two words read.\<close>

definition add_carry_out :: "uint \<Rightarrow> uint \<Rightarrow> uint \<Rightarrow> uint" where
  "add_carry_out sm lv rv = (if sm < lv \<or> sm < rv then 1 else 0)"

text \<open>The main loop \<^verbatim>\<open>while (ri->chunk)\<close>.\<close>

partial_function (option) add_main ::
  "nat \<Rightarrow> heap \<Rightarrow> Iterator \<Rightarrow> Iterator \<Rightarrow> uint \<Rightarrow> (error + heap \<times> Iterator \<times> uint) option" where
  "add_main C h li ri carry =
     (if it_chunk ri \<noteq> None then
        liftE (IT_get h li) (\<lambda>lv.
        liftE (IT_get h ri) (\<lambda>rv.
        let sm = carry + lv + rv;
            carry1 = add_carry_out sm lv rv
        in
        liftE (IT_set h li sm) (\<lambda>h1.
        bindP (IT_next_with_extend C h1 li) (\<lambda>(h2, li1).
        bindP (IT_next h2 ri) (\<lambda>(ri1, r).
        add_main C h2 li1 ri1 carry1)))))
      else Some (Inr (h, li, carry)))"

text \<open>The loop \<^verbatim>\<open>while (carry)\<close>.\<close>

partial_function (option) add_ripple ::
  "nat \<Rightarrow> heap \<Rightarrow> Iterator \<Rightarrow> uint \<Rightarrow> (error + heap) option" where
  "add_ripple C h li carry =
     (if carry \<noteq> 0 then
        liftE (IT_get h li) (\<lambda>lv.
        let sm = carry + lv in
        liftE (IT_set h li sm) (\<lambda>h1.
        if sm > 0 then add_ripple C h1 li 0
        else bindP (IT_next_with_extend C h1 li) (\<lambda>(h2, li1). add_ripple C h2 li1 carry)))
      else Some (Inr h))"

definition add ::
  "nat \<Rightarrow> heap \<Rightarrow> nat option \<Rightarrow> nat option \<Rightarrow> (error + heap \<times> nat option) option" where
  "add C h self arg =
     (if self = None \<or> arg = None then Some (Inr (h, None))
      else
        bindP (iterate h self) (\<lambda>li0.
        bindP (iterate h arg) (\<lambda>ri0.
        case (li0, ri0) of
          (Some li, Some ri) \<Rightarrow>
            bindP (if it_chunk li = None
                   then (let (h1, chunk) = newChunk C h;
                             li1 = li\<lparr>it_chunk := chunk\<rparr>
                         in
                         liftE (get_chunk h1 (it_chunk li1)) (\<lambda>c.
                         liftE (array_set (chunk_value c) 0 0) (\<lambda>v.
                         liftE (upd_chunk h1 (it_chunk li1) (\<lambda>c. c\<lparr>chunk_value := v\<rparr>)) (\<lambda>h2.
                         liftE (upd_chunk h2 (it_chunk li1)
                                 (\<lambda>c. c\<lparr>chunk_length := chunk_length c + 1\<rparr>)) (\<lambda>h3.
                         liftE (append_chunk h3 self (it_chunk li1)) (\<lambda>(h4, r).
                         Some (Inr (h4, li1))))))))
                   else Some (Inr (h, li))) (\<lambda>(h5, li2).
            bindP (add_main C h5 li2 ri 0) (\<lambda>(h6, li3, carry).
            bindP (add_ripple C h6 li3 carry) (\<lambda>h7.
            Some (Inr (h7, self)))))
        | _ \<Rightarrow> Some (Inl NullDeref))))"

declare setValue_trim.simps [code]
declare setValue_extend.simps [code]
declare setValue_fill.simps [code]
declare toString_chunks.simps [code]
declare IT_next_skip.simps [code]
declare iterate_skip.simps [code]
declare add_main.simps [code]
declare add_ripple.simps [code]


section \<open>Abstraction: chains, words and the number a container holds\<close>

text \<open>\<open>is_chain cs p as\<close>: following \<^verbatim>\<open>next\<close> from \<open>p\<close> visits exactly the chunks \<open>as\<close> and ends at \<^verbatim>\<open>NULL\<close>.\<close>

primrec is_chain :: "Chunk list \<Rightarrow> nat option \<Rightarrow> nat list \<Rightarrow> bool" where
  "is_chain cs p [] = (p = None)"
| "is_chain cs p (a # as) = (p = Some a \<and> a < length cs \<and> is_chain cs (chunk_next (cs ! a)) as)"

definition chunk_words :: "Chunk \<Rightarrow> uint list" where
  "chunk_words c = take (nat (chunk_length c)) (chunk_value c)"

definition chain_words :: "heap \<Rightarrow> nat list \<Rightarrow> uint list" where
  "chain_words h as = concat (map (\<lambda>a. chunk_words (chunks h ! a)) as)"

text \<open>The number a word sequence denotes in base \<open>2 ^ 32\<close>, least-significant word first.\<close>

fun word_value :: "uint list \<Rightarrow> int" where
  "word_value [] = 0"
| "word_value (w # ws) = uint w + 2 ^ 32 * word_value ws"

text \<open>The carry-out of adding a carry and two words, as the sum of the numbers decides it.\<close>

definition true_carry_out :: "uint \<Rightarrow> uint \<Rightarrow> uint \<Rightarrow> int" where
  "true_carry_out carry lv rv = (uint carry + uint lv + uint rv) div 2 ^ 32"

text \<open>
  The container invariant of the data model, for the container at address \<open>a\<close> whose chain
  is \<open>as\<close>: the chain has a chunk, the tail reference is its last chunk and the stored
  count is the number of chunks.
\<close>

definition chain_inv :: "heap \<Rightarrow> nat \<Rightarrow> nat list \<Rightarrow> bool" where
  "chain_inv h a as =
     (a < length (objs h) \<and> as \<noteq> [] \<and>
      is_chain (chunks h) (bigint_first (objs h ! a)) as \<and>
      bigint_last (objs h ! a) = Some (last as) \<and>
      bigint_length (objs h ! a) = int (length as))"

text \<open>Every chunk of the chain has a valid length in \<open>[0, C]\<close> and an array of \<open>C\<close> words.\<close>

definition lengths_inv :: "nat \<Rightarrow> heap \<Rightarrow> nat list \<Rightarrow> bool" where
  "lengths_inv C h as =
     list_all (\<lambda>a. 0 \<le> chunk_length (chunks h ! a) \<and> chunk_length (chunks h ! a) \<le> int C \<and>
                    length (chunk_value (chunks h ! a)) = C) as"

text \<open>Every chunk but the last is full.\<close>

definition interior_full :: "nat \<Rightarrow> heap \<Rightarrow> nat list \<Rightarrow> bool" where
  "interior_full C h as = list_all (\<lambda>a. chunk_length (chunks h ! a) = int C) (butlast as)"

text \<open>The string a buffer holds: the characters before the first null character.\<close>

fun cstring :: "char option list \<Rightarrow> string option" where
  "cstring [] = None"
| "cstring (None # xs) = None"
| "cstring (Some c # xs) = (if c = CHR 0x00 then Some [] else map_option ((#) c) (cstring xs))"

text \<open>
  The rendering of a word the spec describes: eight lowercase hexadecimal digits,
  most-significant nibble first.
\<close>

definition hex_digit :: "int \<Rightarrow> char" where
  "hex_digit n = ''0123456789abcdef'' ! nat (n mod 16)"

definition hex_word :: "uint \<Rightarrow> string" where
  "hex_word w = map (\<lambda>i. hex_digit (uint w div 16 ^ (7 - i))) [0..<8]"

section \<open>Cursor positions and heap updates, for the proofs\<close>

text \<open>A chunk has a valid length in \<open>[0, C]\<close> and an array of \<open>C\<close> words.\<close>

definition chunk_ok :: "nat \<Rightarrow> Chunk \<Rightarrow> bool" where
  "chunk_ok C c = (0 \<le> chunk_length c \<and> chunk_length c \<le> int C \<and> length (chunk_value c) = C)"

text \<open>The pointer to the first chunk of a chain.\<close>

definition chain_head :: "nat list \<Rightarrow> nat option" where
  "chain_head rs = (case rs of [] \<Rightarrow> None | r # _ \<Rightarrow> Some r)"

text \<open>The chain from its first chunk with a non-zero valid length on.\<close>

definition skip_empty :: "heap \<Rightarrow> nat list \<Rightarrow> nat list" where
  "skip_empty h rs = dropWhile (\<lambda>r. chunk_length (chunks h ! r) = 0) rs"

text \<open>The number of words from position \<open>i\<close> of the first chunk of \<open>rs\<close> to the end of \<open>rs\<close>.\<close>

definition remaining :: "heap \<Rightarrow> nat list \<Rightarrow> int \<Rightarrow> nat" where
  "remaining h rs i = sum_list (map (\<lambda>r. nat (chunk_length (chunks h ! r))) rs) - nat i"

text \<open>An iterator stands in the chain \<open>rs\<close> of well-formed chunks: on a word of the first chunk of \<open>rs\<close>, or exhausted when \<open>rs\<close> is empty.\<close>

definition cursor_at :: "nat \<Rightarrow> heap \<Rightarrow> Iterator \<Rightarrow> nat list \<Rightarrow> bool" where
  "cursor_at C h it rs =
     (is_chain (chunks h) (it_chunk it) rs \<and>
      list_all (\<lambda>r. chunk_ok C (chunks h ! r)) rs \<and>
      (rs \<noteq> [] \<longrightarrow> 0 \<le> it_index it \<and> it_index it < chunk_length (chunks h ! hd rs)))"

text \<open>Two chunks agree on everything but the words they hold.\<close>

definition same_shape :: "Chunk \<Rightarrow> Chunk \<Rightarrow> bool" where
  "same_shape c' c =
     (chunk_next c' = chunk_next c \<and> chunk_length c' = chunk_length c \<and>
      length (chunk_value c') = length (chunk_value c))"

text \<open>Where \<^verbatim>\<open>IT_next\<close> moves an iterator standing at index \<open>i\<close> of the first chunk of \<open>rs\<close>.\<close>

definition next_pos :: "heap \<Rightarrow> nat list \<Rightarrow> int \<Rightarrow> nat list \<times> int" where
  "next_pos h rs i =
     (if i + 1 < chunk_length (chunks h ! hd rs) then (rs, i + 1) else (skip_empty h (tl rs), 0))"

text \<open>The heap after \<^verbatim>\<open>IT_set\<close> wrote \<open>v\<close> at index \<open>i\<close> of chunk \<open>p\<close>.\<close>

definition set_word :: "heap \<Rightarrow> nat \<Rightarrow> int \<Rightarrow> uint \<Rightarrow> heap" where
  "set_word h p i v =
     h\<lparr>chunks := (chunks h)[p := (chunks h ! p)\<lparr>chunk_value := (chunk_value (chunks h ! p))[nat i := v]\<rparr>]\<rparr>"

text \<open>The heap after a new one-word chunk was appended to the container \<open>a\<close>, whose last chunk is \<open>p\<close>.\<close>

definition grow :: "nat \<Rightarrow> heap \<Rightarrow> nat \<Rightarrow> nat \<Rightarrow> heap" where
  "grow C h a p =
     h\<lparr>chunks := (chunks h)[p := (chunks h ! p)\<lparr>chunk_next := Some (length (chunks h))\<rparr>] @
         [\<lparr>chunk_prev = Some p, chunk_next = None, chunk_length = 1,
           chunk_value = (replicate C 0)[0 := 0]\<rparr>],
       objs := (objs h)[a := (objs h ! a)\<lparr>bigint_length := bigint_length (objs h ! a) + 1,
                                           bigint_last := Some (length (chunks h))\<rparr>]\<rparr>"

text \<open>The accumulator's iterator stands on a word of the chain \<open>ls\<close>, which ends at the tail of container \<open>a\<close>.\<close>

definition acc_inv :: "nat \<Rightarrow> heap \<Rightarrow> Iterator \<Rightarrow> nat \<Rightarrow> nat list \<Rightarrow> bool" where
  "acc_inv C h li a ls =
     (0 < C \<and> ls \<noteq> [] \<and> cursor_at C h li ls \<and> it_obj li = Some a \<and>
      a < length (objs h) \<and> bigint_last (objs h ! a) = Some (last ls))"

text \<open>The two loops of \<^verbatim>\<open>add\<close> and its return.\<close>

definition add_tail ::
  "nat \<Rightarrow> heap \<Rightarrow> Iterator \<Rightarrow> Iterator \<Rightarrow> nat option \<Rightarrow> (error + heap \<times> nat option) option" where
  "add_tail C h li ri self =
     bindP (add_main C h li ri 0) (\<lambda>(h6, li3, carry).
     bindP (add_ripple C h6 li3 carry) (\<lambda>h7.
     Some (Inr (h7, self))))"

text \<open>Both iterators of \<^verbatim>\<open>add\<close> stand on the only word of the tail chunk of the same container.\<close>

definition alias_inv :: "nat \<Rightarrow> heap \<Rightarrow> Iterator \<Rightarrow> Iterator \<Rightarrow> bool" where
  "alias_inv C h li ri =
     (\<exists>a p. acc_inv C h li a [p] \<and> it_chunk ri = Some p \<and> it_index ri = 0 \<and>
            it_index li = 0 \<and> chunk_length (chunks h ! p) = 1)"

text \<open>The eight hexadecimal digits \<^verbatim>\<open>uintToHex\<close> writes for a word, in the order it writes them.\<close>

definition hex_lsf :: "uint \<Rightarrow> string" where
  "hex_lsf u = map (\<lambda>j. hex ! unat (drop_bit (4 * j) u AND 0x0f)) [0..<8]"

section \<open>Heaps the theorems run on\<close>

definition mk_chunk :: "nat option \<Rightarrow> nat option \<Rightarrow> int \<Rightarrow> uint list \<Rightarrow> Chunk" where
  "mk_chunk p n l v = \<lparr>chunk_prev = p, chunk_next = n, chunk_length = l, chunk_value = v\<rparr>"

definition mk_bigint :: "nat option \<Rightarrow> nat option \<Rightarrow> int \<Rightarrow> BigInt" where
  "mk_bigint f l n = \<lparr>bigint_first = f, bigint_last = l, bigint_parity = 1, bigint_length = n\<rparr>"

definition heap_empty :: heap where
  "heap_empty = \<lparr>chunks = [], objs = []\<rparr>"


text \<open>A container as \<^verbatim>\<open>newBigInt\<close> makes it, for \<^verbatim>\<open>CHUNKSIZE\<close> 2, 4 and 8.\<close>

definition fresh2 :: heap where
  "fresh2 = \<lparr>chunks = [mk_chunk None None 1 [0, 0]],
              objs = [mk_bigint (Some 0) (Some 0) 1]\<rparr>"

definition fresh4 :: heap where
  "fresh4 = \<lparr>chunks = [mk_chunk None None 1 [0, 0, 0, 0]],
              objs = [mk_bigint (Some 0) (Some 0) 1]\<rparr>"

definition fresh8 :: heap where
  "fresh8 = \<lparr>chunks = [mk_chunk None None 1 [0, 0, 0, 0, 0, 0, 0, 0]],
              objs = [mk_bigint (Some 0) (Some 0) 1]\<rparr>"

text \<open>\<open>fresh4\<close> after its cursor, standing on the only word, advanced with growth.\<close>

definition fresh4_grown :: heap where
  "fresh4_grown =
     \<lparr>chunks = [mk_chunk None (Some 1) 1 [0, 0, 0, 0], mk_chunk (Some 0) None 1 [0, 0, 0, 0]],
      objs = [mk_bigint (Some 0) (Some 1) 2]\<rparr>"

text \<open>\<open>fresh4\<close> after a bulk load of no words.\<close>

definition fresh4_zero :: heap where
  "fresh4_zero = \<lparr>chunks = [mk_chunk None None 0 [0, 0, 0, 0]],
                   objs = [mk_bigint (Some 0) (Some 0) 0]\<rparr>"

text \<open>Two fresh containers, at addresses 0 and 1, and the heap after adding the second to the first.\<close>

definition pair4 :: heap where
  "pair4 =
     \<lparr>chunks = [mk_chunk None None 1 [0, 0, 0, 0], mk_chunk None None 1 [0, 0, 0, 0]],
      objs = [mk_bigint (Some 0) (Some 0) 1, mk_bigint (Some 1) (Some 1) 1]\<rparr>"

definition pair4_sum :: heap where
  "pair4_sum =
     \<lparr>chunks = [mk_chunk None (Some 2) 1 [0, 0, 0, 0], mk_chunk None None 1 [0, 0, 0, 0],
                mk_chunk (Some 0) None 1 [0, 0, 0, 0]],
      objs = [mk_bigint (Some 0) (Some 2) 2, mk_bigint (Some 1) (Some 1) 1]\<rparr>"

text \<open>
  Two containers holding the words \<open>[0xffffffff, 0xffffffff]\<close> and \<open>[1, 0xffffffff]\<close>, and the
  heap after adding the second to the first.
\<close>

definition carry_heap :: heap where
  "carry_heap =
     \<lparr>chunks = [mk_chunk None None 2 [0xffffffff, 0xffffffff, 0, 0],
                mk_chunk None None 2 [1, 0xffffffff, 0, 0]],
      objs = [mk_bigint (Some 0) (Some 0) 1, mk_bigint (Some 1) (Some 1) 1]\<rparr>"

definition carry_heap_sum :: heap where
  "carry_heap_sum =
     \<lparr>chunks = [mk_chunk None (Some 2) 2 [0, 0xffffffff, 0, 0],
                mk_chunk None None 2 [1, 0xffffffff, 0, 0],
                mk_chunk (Some 0) None 1 [0, 0, 0, 0]],
      objs = [mk_bigint (Some 0) (Some 2) 2, mk_bigint (Some 1) (Some 1) 1]\<rparr>"

text \<open>A container of two full chunks of two words, and the heap after a bulk load of one word into it.\<close>

definition loaded2 :: heap where
  "loaded2 =
     \<lparr>chunks = [mk_chunk None (Some 1) 2 [1, 2], mk_chunk (Some 0) None 2 [3, 4]],
      objs = [mk_bigint (Some 0) (Some 1) 2]\<rparr>"

definition loaded2_cut :: heap where
  "loaded2_cut =
     \<lparr>chunks = [mk_chunk None (Some 1) 1 [9, 2], mk_chunk (Some 0) None 1 [8, 4]],
      objs = [mk_bigint (Some 0) None 1]\<rparr>"

text \<open>\<open>fresh8\<close> after a bulk load of the word 1.\<close>

definition one8 :: heap where
  "one8 = \<lparr>chunks = [mk_chunk None None 1 [1, 0, 0, 0, 0, 0, 0, 0]],
            objs = [mk_bigint (Some 0) (Some 0) 1]\<rparr>"


text \<open>\<open>fresh4\<close> after a bulk load of the word 1.\<close>

definition one4 :: heap where
  "one4 = \<lparr>chunks = [mk_chunk None None 1 [1, 0, 0, 0]],
            objs = [mk_bigint (Some 0) (Some 0) 1]\<rparr>"

text \<open>A container as \<^verbatim>\<open>newBigInt\<close> makes it for \<^verbatim>\<open>CHUNKSIZE\<close> 40, and five words to load.\<close>

definition fresh40 :: heap where
  "fresh40 = \<lparr>chunks = [mk_chunk None None 1 (replicate 40 0)],
               objs = [mk_bigint (Some 0) (Some 0) 1]\<rparr>"

definition five_words :: "uint list" where
  "five_words = [0, 0xffffffff, 1, 0x12345678, 0x80000000]"

section \<open>The heaps above are built by the public operations\<close>

lemma fresh_built:
  "newBigInt 2 heap_empty = Inr (fresh2, Some 0)"
  "newBigInt 4 heap_empty = Inr (fresh4, Some 0)"
  "newBigInt 8 heap_empty = Inr (fresh8, Some 0)"
  by code_simp+

lemma fresh40_built: "newBigInt 40 heap_empty = Inr (fresh40, Some 0)"
  by code_simp

lemma pair4_built:
  "bindE (newBigInt 4 heap_empty) (\<lambda>(h, a). newBigInt 4 h) = Inr (pair4, Some 1)"
  by code_simp

lemma carry_heap_built:
  "bindP (setValue 4 pair4 (Some 0) 2 (Some [0xffffffff, 0xffffffff]))
     (\<lambda>(h, r). setValue 4 h (Some 1) 2 (Some [1, 0xffffffff])) = Some (Inr (carry_heap, 0))"
  by code_simp

lemma loaded2_built:
  "setValue 2 fresh2 (Some 0) 4 (Some [1, 2, 3, 4]) = Some (Inr (loaded2, 0))"
  by code_simp

section \<open>Steps of the cursor and of the loops\<close>

lemma bindE_simps [simp]: "bindE (Inl e) f = Inl e" "bindE (Inr x) f = f x"
  by (simp_all add: bindE_def)

lemma liftE_simps [simp]: "liftE (Inl e) g = Some (Inl e)" "liftE (Inr x) g = g x"
  by (simp_all add: liftE_def)

lemma bindP_simps [simp]:
  "bindP None g = None" "bindP (Some (Inl e)) g = Some (Inl e)" "bindP (Some (Inr x)) g = g x"
  by (simp_all add: bindP_def)

lemma get_chunk_valid: "a < length (chunks h) \<Longrightarrow> get_chunk h (Some a) = Inr (chunks h ! a)"
  by (simp add: get_chunk_def)

lemma upd_chunk_valid:
  "a < length (chunks h) \<Longrightarrow>
   upd_chunk h (Some a) f = Inr (h\<lparr>chunks := (chunks h)[a := f (chunks h ! a)]\<rparr>)"
  by (simp add: upd_chunk_def)

lemma get_obj_valid: "a < length (objs h) \<Longrightarrow> get_obj h (Some a) = Inr (objs h ! a)"
  by (simp add: get_obj_def)

lemma upd_obj_valid:
  "a < length (objs h) \<Longrightarrow>
   upd_obj h (Some a) f = Inr (h\<lparr>objs := (objs h)[a := f (objs h ! a)]\<rparr>)"
  by (simp add: upd_obj_def)

lemma array_get_valid: "0 \<le> i \<Longrightarrow> i < int (length xs) \<Longrightarrow> array_get xs i = Inr (xs ! nat i)"
  by (simp add: array_get_def)

lemma array_set_valid:
  "0 \<le> i \<Longrightarrow> i < int (length xs) \<Longrightarrow> array_set xs i v = Inr (xs[nat i := v])"
  by (simp add: array_set_def)

lemma is_chain_head: "is_chain cs p rs \<Longrightarrow> p = chain_head rs"
  by (cases rs) (simp_all add: chain_head_def)

lemma is_chain_bound: "is_chain cs p rs \<Longrightarrow> r \<in> set rs \<Longrightarrow> r < length cs"
  by (induction rs arbitrary: p) auto

lemma is_chain_suffix: "is_chain cs p (xs @ ys) \<Longrightarrow> is_chain cs (chain_head ys) ys"
proof (induction xs arbitrary: p)
  case Nil
  then have "p = chain_head ys" using is_chain_head [of cs p ys] by simp
  with Nil show ?case by simp
next
  case (Cons x xs)
  then show ?case by auto
qed

lemma is_chain_cong:
  "is_chain cs p rs \<Longrightarrow> length cs \<le> length cs' \<Longrightarrow>
   (\<forall>r\<in>set rs. chunk_next (cs' ! r) = chunk_next (cs ! r)) \<Longrightarrow> is_chain cs' p rs"
  by (induction rs arbitrary: p) auto

lemma is_chain_skip_empty:
  "is_chain (chunks h) p rs \<Longrightarrow> is_chain (chunks h) (chain_head (skip_empty h rs)) (skip_empty h rs)"
  using is_chain_suffix [of "chunks h" p "takeWhile (\<lambda>r. chunk_length (chunks h ! r) = 0) rs"
      "skip_empty h rs"]
  by (simp add: skip_empty_def)

lemma IT_next_skip_chain:
  "is_chain (chunks h) (Some q) (q # rest) \<Longrightarrow>
   IT_next_skip h (Some q) = Some (Inr (chain_head (skip_empty h rest)))"
proof (induction rest arbitrary: q)
  case Nil
  then show ?case
    by (subst IT_next_skip.simps) (simp add: get_chunk_valid chain_head_def skip_empty_def)
next
  case (Cons r rest)
  from Cons.prems have q: "q < length (chunks h)" and nx: "chunk_next (chunks h ! q) = Some r"
    and r: "r < length (chunks h)" and ch: "is_chain (chunks h) (Some r) (r # rest)"
    by simp_all
  show ?case
  proof (cases "chunk_length (chunks h ! r) = 0")
    case True
    then show ?thesis
      using Cons.IH [OF ch] q nx r
      by (subst IT_next_skip.simps) (simp add: get_chunk_valid skip_empty_def)
  next
    case False
    then show ?thesis
      using q nx r
      by (subst IT_next_skip.simps) (simp add: get_chunk_valid skip_empty_def chain_head_def)
  qed
qed

lemma same_shape_refl [simp]: "same_shape c c"
  by (simp add: same_shape_def)

lemma cursor_at_cong:
  assumes "cursor_at C h it rs" and "length (chunks h) \<le> length (chunks h')"
    and "\<forall>r\<in>set rs. same_shape (chunks h' ! r) (chunks h ! r)"
  shows "cursor_at C h' it rs"
proof -
  have 1: "is_chain (chunks h') (it_chunk it) rs"
    using assms is_chain_cong [of "chunks h" "it_chunk it" rs "chunks h'"]
    by (simp add: cursor_at_def same_shape_def)
  have 2: "list_all (\<lambda>r. chunk_ok C (chunks h' ! r)) rs"
    using assms by (auto simp: cursor_at_def same_shape_def chunk_ok_def list_all_iff)
  have 3: "rs \<noteq> [] \<longrightarrow> 0 \<le> it_index it \<and> it_index it < chunk_length (chunks h' ! hd rs)"
    using assms by (cases rs) (auto simp: cursor_at_def same_shape_def)
  from 1 2 3 show ?thesis by (simp add: cursor_at_def)
qed

lemma remaining_cong:
  assumes "\<forall>r\<in>set rs. same_shape (chunks h' ! r) (chunks h ! r)"
  shows "remaining h' rs i = remaining h rs i"
proof -
  have "map (\<lambda>r. nat (chunk_length (chunks h' ! r))) rs = map (\<lambda>r. nat (chunk_length (chunks h ! r))) rs"
    using assms by (auto simp: same_shape_def)
  then show ?thesis unfolding remaining_def by presburger
qed

lemma sum_skip_empty:
  "sum_list (map (\<lambda>r. nat (chunk_length (chunks h ! r))) (skip_empty h rs)) =
   sum_list (map (\<lambda>r. nat (chunk_length (chunks h ! r))) rs)"
  by (induction rs) (simp_all add: skip_empty_def)

lemma skip_empty_head:
  "skip_empty h rs \<noteq> [] \<Longrightarrow> chunk_length (chunks h ! hd (skip_empty h rs)) \<noteq> 0"
  using hd_dropWhile [of "\<lambda>r. chunk_length (chunks h ! r) = 0" rs]
  by (simp add: skip_empty_def)

lemma skip_empty_subset: "set (skip_empty h rs) \<subseteq> set rs"
  using set_dropWhileD [of _ "\<lambda>r. chunk_length (chunks h ! r) = 0" rs]
  by (auto simp: skip_empty_def)

lemma skip_empty_last: "skip_empty h rs \<noteq> [] \<Longrightarrow> last (skip_empty h rs) = last rs"
  by (induction rs) (auto simp: skip_empty_def split: if_splits)

lemma IT_get_cursor:
  assumes "cursor_at C h it rs" and "rs \<noteq> []"
  shows "IT_get h it = Inr (chunk_value (chunks h ! hd rs) ! nat (it_index it))"
proof -
  obtain q rest where rs: "rs = q # rest" using assms(2) by (cases rs) auto
  from assms(1) rs have "it_chunk it = Some q" "q < length (chunks h)"
    "0 \<le> it_index it" "it_index it < int (length (chunk_value (chunks h ! q)))"
    by (auto simp: cursor_at_def chunk_ok_def)
  then show ?thesis by (simp add: IT_get_def rs get_chunk_valid array_get_valid)
qed

lemma IT_set_cursor:
  assumes "cursor_at C h it rs" and "rs \<noteq> []"
  shows "IT_set h it v = Inr (set_word h (hd rs) (it_index it) v)"
proof -
  obtain q rest where rs: "rs = q # rest" using assms(2) by (cases rs) auto
  from assms(1) rs have "it_chunk it = Some q" "q < length (chunks h)"
    "0 \<le> it_index it" "it_index it < int (length (chunk_value (chunks h ! q)))"
    by (auto simp: cursor_at_def chunk_ok_def)
  then show ?thesis
    by (simp add: IT_set_def rs get_chunk_valid array_set_valid upd_chunk_valid set_word_def)
qed

lemma set_word_shape [simp]:
  "objs (set_word h p i v) = objs h"
  "length (chunks (set_word h p i v)) = length (chunks h)"
  by (simp_all add: set_word_def)

lemma set_word_same_shape [simp]: "same_shape (chunks (set_word h p i v) ! r) (chunks h ! r)"
proof (cases "p < length (chunks h)")
  case True
  then show ?thesis by (cases "r = p") (simp_all add: set_word_def same_shape_def)
next
  case False
  then show ?thesis by (simp add: set_word_def list_update_beyond)
qed

lemma IT_next_result:
  assumes c: "cursor_at C h it rs" and ne: "rs \<noteq> []"
  shows "IT_next h it =
           Some (Inr (\<lparr>it_obj = it_obj it,
                       it_chunk = chain_head (fst (next_pos h rs (it_index it))),
                       it_index = snd (next_pos h rs (it_index it))\<rparr>,
                      fst (next_pos h rs (it_index it)) \<noteq> []))"
proof -
  obtain q rest where rs: "rs = q # rest" using ne by (cases rs) auto
  obtain ob ch i where it: "it = \<lparr>it_obj = ob, it_chunk = ch, it_index = i\<rparr>" by (cases it)
  from c rs it have ch: "ch = Some q" and q: "q < length (chunks h)"
    and i0: "0 \<le> i" and i1: "i < chunk_length (chunks h ! q)"
    and chain: "is_chain (chunks h) (Some q) (q # rest)"
    by (auto simp: cursor_at_def)
  show ?thesis
  proof (cases "i + 1 < chunk_length (chunks h ! q)")
    case True
    then show ?thesis using q
      apply (simp add: IT_next_def rs it ch get_chunk_valid)
      apply (simp add: next_pos_def chain_head_def)
      done
  next
    case False
    then show ?thesis using q
      apply (simp add: IT_next_def rs it ch get_chunk_valid IT_next_skip_chain [OF chain])
      apply (simp add: next_pos_def chain_head_def split: list.split)
      done
  qed
qed

lemma IT_next_cursor:
  assumes c: "cursor_at C h it rs" and ne: "rs \<noteq> []"
  shows "cursor_at C h \<lparr>it_obj = it_obj it,
                       it_chunk = chain_head (fst (next_pos h rs (it_index it))),
                       it_index = snd (next_pos h rs (it_index it))\<rparr>
           (fst (next_pos h rs (it_index it)))"
proof -
  obtain q rest where rs: "rs = q # rest" using ne by (cases rs) auto
  obtain ob ch i where it: "it = \<lparr>it_obj = ob, it_chunk = ch, it_index = i\<rparr>" by (cases it)
  from c rs it have ch: "ch = Some q" and q: "q < length (chunks h)"
    and i0: "0 \<le> i" and i1: "i < chunk_length (chunks h ! q)"
    and chain: "is_chain (chunks h) (Some q) (q # rest)"
    and ok: "list_all (\<lambda>r. chunk_ok C (chunks h ! r)) rest"
    and okq: "chunk_ok C (chunks h ! q)"
    by (auto simp: cursor_at_def)
  show ?thesis
  proof (cases "i + 1 < chunk_length (chunks h ! q)")
    case True
    then show ?thesis using chain ok okq i0
      by (simp add: next_pos_def rs it ch cursor_at_def chain_head_def)
  next
    case False
    have ch': "is_chain (chunks h) (chunk_next (chunks h ! q)) rest" using chain by simp
    have 1: "is_chain (chunks h) (chain_head (skip_empty h rest)) (skip_empty h rest)"
      using is_chain_skip_empty [OF ch'] .
    have 2: "list_all (\<lambda>r. chunk_ok C (chunks h ! r)) (skip_empty h rest)"
      using ok skip_empty_subset [of h rest] by (auto simp: list_all_iff)
    have 3: "skip_empty h rest \<noteq> [] \<longrightarrow> 0 < chunk_length (chunks h ! hd (skip_empty h rest))"
    proof
      assume n: "skip_empty h rest \<noteq> []"
      then have "hd (skip_empty h rest) \<in> set (skip_empty h rest)" by simp
      with 2 have "0 \<le> chunk_length (chunks h ! hd (skip_empty h rest))"
        by (auto simp: list_all_iff chunk_ok_def)
      with skip_empty_head [OF n] show "0 < chunk_length (chunks h ! hd (skip_empty h rest))"
        by simp
    qed
    from False 1 2 3 show ?thesis
      by (simp add: next_pos_def rs it cursor_at_def)
  qed
qed

lemma IT_next_remaining:
  assumes c: "cursor_at C h it rs" and ne: "rs \<noteq> []"
  shows "Suc (remaining h (fst (next_pos h rs (it_index it))) (snd (next_pos h rs (it_index it))))
           = remaining h rs (it_index it)"
proof -
  obtain q rest where rs: "rs = q # rest" using ne by (cases rs) auto
  from c rs have i0: "0 \<le> it_index it" and i1: "it_index it < chunk_length (chunks h ! q)"
    by (auto simp: cursor_at_def)
  show ?thesis
  proof (cases "it_index it + 1 < chunk_length (chunks h ! q)")
    case True
    then show ?thesis using i0 i1
      by (simp add: next_pos_def rs remaining_def nat_add_distrib)
  next
    case False
    with i1 have "chunk_length (chunks h ! q) = it_index it + 1" by simp
    then show ?thesis using i0
      by (simp add: next_pos_def rs remaining_def sum_skip_empty nat_add_distrib)
  qed
qed

lemma next_pos_facts:
  assumes "rs \<noteq> []"
  shows "set (fst (next_pos h rs i)) \<subseteq> set rs"
    and "fst (next_pos h rs i) \<noteq> [] \<Longrightarrow> last (fst (next_pos h rs i)) = last rs"
    and "fst (next_pos h rs i) = [] \<Longrightarrow> snd (next_pos h rs i) = 0"
proof -
  obtain q rest where rs: "rs = q # rest" using assms by (cases rs) auto
  show "set (fst (next_pos h rs i)) \<subseteq> set rs"
    using skip_empty_subset [of h rest] by (auto simp: next_pos_def rs)
  show "fst (next_pos h rs i) \<noteq> [] \<Longrightarrow> last (fst (next_pos h rs i)) = last rs"
    using skip_empty_last [of h rest]
    by (cases rest) (auto simp: next_pos_def rs skip_empty_def split: if_splits)
  show "fst (next_pos h rs i) = [] \<Longrightarrow> snd (next_pos h rs i) = 0"
    by (auto simp: next_pos_def rs split: if_splits)
qed

lemma grow_chunks:
  assumes "p < length (chunks h)"
  shows "length (chunks (grow C h a p)) = Suc (length (chunks h))"
    and "r < length (chunks h) \<Longrightarrow> r \<noteq> p \<Longrightarrow> chunks (grow C h a p) ! r = chunks h ! r"
    and "chunks (grow C h a p) ! length (chunks h) =
           \<lparr>chunk_prev = Some p, chunk_next = None, chunk_length = 1,
             chunk_value = (replicate C 0)[0 := 0]\<rparr>"
  using assms by (simp_all add: grow_def nth_append)

lemma grow_objs:
  assumes "a < length (objs h)"
  shows "length (objs (grow C h a p)) = length (objs h)"
    and "bigint_last (objs (grow C h a p) ! a) = Some (length (chunks h))"
  using assms by (simp_all add: grow_def)

lemma acc_inv_grow:
  assumes "0 < C" and "a < length (objs h)" and "p < length (chunks h)"
  shows "acc_inv C (grow C h a p)
           \<lparr>it_obj = Some a, it_chunk = Some (length (chunks h)), it_index = 0\<rparr> a
           [length (chunks h)]"
  using assms
  by (simp add: acc_inv_def cursor_at_def grow_chunks grow_objs chunk_ok_def)

lemma IT_next_with_extend_acc:
  assumes inv: "acc_inv C h li a ls"
  shows "IT_next_with_extend C h li =
           Some (Inr (if fst (next_pos h ls (it_index li)) \<noteq> []
                      then (h, \<lparr>it_obj = Some a,
                                it_chunk = chain_head (fst (next_pos h ls (it_index li))),
                                it_index = snd (next_pos h ls (it_index li))\<rparr>)
                      else (grow C h a (last ls),
                            \<lparr>it_obj = Some a, it_chunk = Some (length (chunks h)),
                             it_index = 0\<rparr>)))"
proof -
  from inv have C: "0 < C" and ne: "ls \<noteq> []" and cur: "cursor_at C h li ls"
    and ob: "it_obj li = Some a" and a: "a < length (objs h)"
    and lst: "bigint_last (objs h ! a) = Some (last ls)"
    by (simp_all add: acc_inv_def)
  have p: "last ls < length (chunks h)"
    using cur ne is_chain_bound [of "chunks h" "it_chunk li" ls "last ls"]
    by (simp add: cursor_at_def)
  note nx = IT_next_result [OF cur ne]
  show ?thesis
  proof (cases "fst (next_pos h ls (it_index li)) \<noteq> []")
    case True
    then show ?thesis by (simp add: IT_next_with_extend_def nx ob)
  next
    case False
    then have z: "snd (next_pos h ls (it_index li)) = 0"
      using next_pos_facts(3) [OF ne] by simp
    from False C a p lst show ?thesis
      apply (simp add: IT_next_with_extend_def nx ob get_obj_valid z)
      apply (simp add: newChunk_def get_chunk_valid array_set_valid upd_chunk_valid)
      apply (simp add: append_chunk_def upd_obj_valid get_obj_valid upd_chunk_valid nth_append)
      apply (simp add: grow_def list_update_append nth_append)
      done
  qed
qed

lemma acc_inv_step:
  assumes inv: "acc_inv C h li a ls"
  obtains h' li' ls' where
    "IT_next_with_extend C h li = Some (Inr (h', li'))"
    "acc_inv C h' li' a ls'"
    "length (chunks h) \<le> length (chunks h')"
    "\<And>r. r < length (chunks h) \<Longrightarrow> r \<notin> set ls \<Longrightarrow> chunks h' ! r = chunks h ! r"
    "set ls' \<subseteq> set ls \<union> {length (chunks h)}"
    "(h' = h \<and> Suc (remaining h ls' (it_index li')) = remaining h ls (it_index li)) \<or>
     (chunk_value (chunks h' ! hd ls') ! nat (it_index li') = 0)"
proof -
  from inv have C: "0 < C" and ne: "ls \<noteq> []" and cur: "cursor_at C h li ls"
    and ob: "it_obj li = Some a" and a: "a < length (objs h)"
    and lst: "bigint_last (objs h ! a) = Some (last ls)"
    by (simp_all add: acc_inv_def)
  have p: "last ls < length (chunks h)"
    using cur ne is_chain_bound [of "chunks h" "it_chunk li" ls "last ls"]
    by (simp add: cursor_at_def)
  let ?np = "next_pos h ls (it_index li)"
  show thesis
  proof (cases "fst ?np \<noteq> []")
    case True
    let ?li' = "\<lparr>it_obj = Some a, it_chunk = chain_head (fst ?np), it_index = snd ?np\<rparr>"
    have 1: "IT_next_with_extend C h li = Some (Inr (h, ?li'))"
      using IT_next_with_extend_acc [OF inv] True by simp
    have 2: "acc_inv C h ?li' a (fst ?np)"
      using IT_next_cursor [OF cur ne] True C a lst next_pos_facts(2) [OF ne, of h "it_index li"] ob
      by (simp add: acc_inv_def)
    have 3: "Suc (remaining h (fst ?np) (it_index ?li')) = remaining h ls (it_index li)"
      using IT_next_remaining [OF cur ne] by simp
    show ?thesis
      using that [OF 1 2] next_pos_facts(1) [OF ne, of h "it_index li"] 3 by auto
  next
    case False
    let ?li' = "\<lparr>it_obj = Some a, it_chunk = Some (length (chunks h)), it_index = 0\<rparr>"
    have 1: "IT_next_with_extend C h li = Some (Inr (grow C h a (last ls), ?li'))"
      using IT_next_with_extend_acc [OF inv] False by simp
    have 2: "acc_inv C (grow C h a (last ls)) ?li' a [length (chunks h)]"
      using acc_inv_grow [OF C a p] .
    have 3: "length (chunks h) \<le> length (chunks (grow C h a (last ls)))"
      using grow_chunks(1) [OF p] by simp
    have 4: "\<And>r. r < length (chunks h) \<Longrightarrow> r \<notin> set ls \<Longrightarrow>
                chunks (grow C h a (last ls)) ! r = chunks h ! r"
      using grow_chunks(2) [OF p] ne by (metis last_in_set)
    have 5: "chunk_value (chunks (grow C h a (last ls)) ! hd [length (chunks h)]) ! nat (it_index ?li') = 0"
      using grow_chunks(3) [OF p] C by simp
    show ?thesis
      using that [OF 1 2 3 4] 5 by simp
  qed
qed

lemma acc_inv_set_word:
  assumes "acc_inv C h li a ls"
  shows "acc_inv C (set_word h p i v) li a ls"
  using assms cursor_at_cong [of C h li ls "set_word h p i v"]
  by (simp add: acc_inv_def)

lemma cursor_at_None: "cursor_at C h ri [] \<Longrightarrow> it_chunk ri = None"
  by (simp add: cursor_at_def)

lemma cursor_at_Some: "cursor_at C h ri rs \<Longrightarrow> rs \<noteq> [] \<Longrightarrow> it_chunk ri \<noteq> None"
  by (cases rs) (auto simp: cursor_at_def)

lemma cursor_at_bound: "cursor_at C h ri rs \<Longrightarrow> r \<in> set rs \<Longrightarrow> r < length (chunks h)"
  using is_chain_bound by (auto simp: cursor_at_def)

lemma add_main_returns:
  assumes "acc_inv C h li a ls" and "cursor_at C h ri rs" and "set ls \<inter> set rs = {}"
    and "remaining h rs (it_index ri) = n"
  shows "\<exists>h' li' ls' carry'. add_main C h li ri carry = Some (Inr (h', li', carry')) \<and>
           acc_inv C h' li' a ls'"
  using assms
proof (induction n arbitrary: h li ri ls rs carry)
  case 0
  have "rs = []"
  proof (rule ccontr)
    assume "rs \<noteq> []"
    from IT_next_remaining [OF "0.prems"(2) this] "0.prems"(4) show False by simp
  qed
  with "0.prems"(2) have "it_chunk ri = None" using cursor_at_None by simp
  then have "add_main C h li ri carry = Some (Inr (h, li, carry))"
    by (subst add_main.simps) simp
  with "0.prems"(1) show ?case by blast
next
  case (Suc n)
  have ne: "rs \<noteq> []"
  proof
    assume "rs = []"
    with Suc.prems(4) show False by (simp add: remaining_def)
  qed
  from Suc.prems(1) have lne: "ls \<noteq> []" and lcur: "cursor_at C h li ls"
    by (simp_all add: acc_inv_def)
  obtain lv where lv: "IT_get h li = Inr lv" using IT_get_cursor [OF lcur lne] by simp
  obtain rv where rv: "IT_get h ri = Inr rv" using IT_get_cursor [OF Suc.prems(2) ne] by simp
  let ?sm = "carry + lv + rv"
  let ?h1 = "set_word h (hd ls) (it_index li) ?sm"
  have set: "IT_set h li ?sm = Inr ?h1" using IT_set_cursor [OF lcur lne] .
  have inv1: "acc_inv C ?h1 li a ls" using acc_inv_set_word [OF Suc.prems(1)] .
  have rcur1: "cursor_at C ?h1 ri rs"
    using cursor_at_cong [OF Suc.prems(2), of ?h1] by simp
  have rem1: "remaining ?h1 rs (it_index ri) = Suc n"
    using remaining_cong [of rs ?h1 h "it_index ri"] Suc.prems(4) by simp
  obtain h2 li1 ls1 where
    ext: "IT_next_with_extend C ?h1 li = Some (Inr (h2, li1))"
    and inv2: "acc_inv C h2 li1 a ls1"
    and len2: "length (chunks ?h1) \<le> length (chunks h2)"
    and frame: "\<And>r. r < length (chunks ?h1) \<Longrightarrow> r \<notin> set ls \<Longrightarrow> chunks h2 ! r = chunks ?h1 ! r"
    and sub: "set ls1 \<subseteq> set ls \<union> {length (chunks ?h1)}"
    and alt: "(h2 = ?h1 \<and> Suc (remaining ?h1 ls1 (it_index li1)) = remaining ?h1 ls (it_index li)) \<or>
     (chunk_value (chunks h2 ! hd ls1) ! nat (it_index li1) = 0)"
    using acc_inv_step [OF inv1, of thesis] by blast
  have same: "\<forall>r\<in>set rs. same_shape (chunks h2 ! r) (chunks ?h1 ! r)"
  proof
    fix r assume r: "r \<in> set rs"
    then have "r < length (chunks ?h1)" using cursor_at_bound [OF rcur1] by simp
    moreover have "r \<notin> set ls" using r Suc.prems(3) by auto
    ultimately show "same_shape (chunks h2 ! r) (chunks ?h1 ! r)" using frame by simp
  qed
  have rcur2: "cursor_at C h2 ri rs" using cursor_at_cong [OF rcur1 len2 same] .
  have rem2: "remaining h2 rs (it_index ri) = Suc n"
    using remaining_cong [OF same] rem1 by simp
  let ?np = "next_pos h2 rs (it_index ri)"
  let ?ri1 = "\<lparr>it_obj = it_obj ri, it_chunk = chain_head (fst ?np), it_index = snd ?np\<rparr>"
  have nxt: "IT_next h2 ri = Some (Inr (?ri1, fst ?np \<noteq> []))"
    using IT_next_result [OF rcur2 ne] .
  have rcur3: "cursor_at C h2 ?ri1 (fst ?np)" using IT_next_cursor [OF rcur2 ne] .
  have rem3: "remaining h2 (fst ?np) (it_index ?ri1) = n"
    using IT_next_remaining [OF rcur2 ne] rem2 by simp
  have disj: "set ls1 \<inter> set (fst ?np) = {}"
  proof -
    have "set (fst ?np) \<subseteq> set rs" using next_pos_facts(1) [OF ne] .
    moreover have "\<forall>r\<in>set rs. r < length (chunks ?h1)" using cursor_at_bound [OF rcur1] by simp
    ultimately show ?thesis using sub Suc.prems(3) by fastforce
  qed
  have step: "add_main C h li ri carry = add_main C h2 li1 ?ri1 (add_carry_out ?sm lv rv)"
    using cursor_at_Some [OF Suc.prems(2) ne]
    by (subst add_main.simps) (simp add: lv rv set ext nxt Let_def)
  from Suc.IH [OF inv2 rcur3 disj rem3] step show ?case by simp
qed

lemma add_ripple_zero_carry: "add_ripple C h li 0 = Some (Inr h)"
  by (subst add_ripple.simps) simp

lemma add_ripple_absorbed:
  assumes inv: "acc_inv C h li a ls"
    and w: "carry + chunk_value (chunks h ! hd ls) ! nat (it_index li) \<noteq> 0"
  shows "\<exists>h'. add_ripple C h li carry = Some (Inr h')"
proof (cases "carry = 0")
  case True
  then show ?thesis by (simp add: add_ripple_zero_carry)
next
  case False
  from inv have lne: "ls \<noteq> []" and lcur: "cursor_at C h li ls"
    by (simp_all add: acc_inv_def)
  let ?lv = "chunk_value (chunks h ! hd ls) ! nat (it_index li)"
  have lv: "IT_get h li = Inr ?lv" using IT_get_cursor [OF lcur lne] .
  have set: "IT_set h li (carry + ?lv) = Inr (set_word h (hd ls) (it_index li) (carry + ?lv))"
    using IT_set_cursor [OF lcur lne] .
  from w have pos: "0 < carry + ?lv" by (simp add: word_greater_zero_iff)
  show ?thesis using False pos
    by (subst add_ripple.simps) (simp add: lv set Let_def add_ripple_zero_carry)
qed

lemma add_ripple_returns:
  assumes "acc_inv C h li a ls" and "remaining h ls (it_index li) = n"
  shows "\<exists>h'. add_ripple C h li carry = Some (Inr h')"
  using assms
proof (induction n arbitrary: h li ls)
  case 0
  from "0.prems"(1) have lne: "ls \<noteq> []" and lcur: "cursor_at C h li ls"
    by (simp_all add: acc_inv_def)
  from IT_next_remaining [OF lcur lne] "0.prems"(2) show ?case by simp
next
  case (Suc n)
  from Suc.prems(1) have lne: "ls \<noteq> []" and lcur: "cursor_at C h li ls"
    by (simp_all add: acc_inv_def)
  let ?lv = "chunk_value (chunks h ! hd ls) ! nat (it_index li)"
  show ?case
  proof (cases "carry + ?lv = 0")
    case False
    then show ?thesis using add_ripple_absorbed [OF Suc.prems(1)] by simp
  next
    case True
    then have c0: "carry \<noteq> 0 \<or> carry = 0" by simp
    show ?thesis
    proof (cases "carry = 0")
      case True
      then show ?thesis by (simp add: add_ripple_zero_carry)
    next
      case False
      let ?h1 = "set_word h (hd ls) (it_index li) 0"
      have lv: "IT_get h li = Inr ?lv" using IT_get_cursor [OF lcur lne] .
      have set: "IT_set h li 0 = Inr ?h1" using IT_set_cursor [OF lcur lne] .
      have inv1: "acc_inv C ?h1 li a ls" using acc_inv_set_word [OF Suc.prems(1)] .
      obtain h2 li1 ls1 where
        ext: "IT_next_with_extend C ?h1 li = Some (Inr (h2, li1))"
        and inv2: "acc_inv C h2 li1 a ls1"
        and alt: "(h2 = ?h1 \<and> Suc (remaining ?h1 ls1 (it_index li1)) = remaining ?h1 ls (it_index li)) \<or>
           (chunk_value (chunks h2 ! hd ls1) ! nat (it_index li1) = 0)"
        using acc_inv_step [OF inv1, of thesis] by blast
      have step: "add_ripple C h li carry = add_ripple C h2 li1 carry"
        using False \<open>carry + ?lv = 0\<close>
        by (subst add_ripple.simps) (simp add: lv set ext Let_def)
      from alt show ?thesis
      proof
        assume "h2 = ?h1 \<and> Suc (remaining ?h1 ls1 (it_index li1)) = remaining ?h1 ls (it_index li)"
        moreover have "remaining ?h1 ls (it_index li) = Suc n"
          using remaining_cong [of ls ?h1 h "it_index li"] Suc.prems(2) by simp
        ultimately have "remaining h2 ls1 (it_index li1) = n" by simp
        from Suc.IH [OF inv2 this] step show ?thesis by simp
      next
        assume "chunk_value (chunks h2 ! hd ls1) ! nat (it_index li1) = 0"
        with False have "carry + chunk_value (chunks h2 ! hd ls1) ! nat (it_index li1) \<noteq> 0"
          by simp
        from add_ripple_absorbed [OF inv2 this] step show ?thesis by simp
      qed
    qed
  qed
qed

lemma iterate_skip_chain:
  assumes ch: "is_chain (chunks h) p ps"
  shows "iterate_skip h \<lparr>it_obj = ob, it_chunk = p, it_index = 0\<rparr> =
           Some (Inr \<lparr>it_obj = ob, it_chunk = chain_head (skip_empty h ps), it_index = 0\<rparr>)"
proof (cases ps)
  case Nil
  with ch show ?thesis
    by (subst iterate_skip.simps) (simp add: skip_empty_def chain_head_def)
next
  case (Cons q rest)
  with ch have p: "p = Some q" and q: "q < length (chunks h)"
    and chain: "is_chain (chunks h) (Some q) (q # rest)" by simp_all
  show ?thesis
  proof (cases "chunk_length (chunks h ! q) = 0")
    case False
    then show ?thesis using q
      by (subst iterate_skip.simps)
         (simp add: p Cons get_chunk_valid skip_empty_def chain_head_def)
  next
    case True
    have nx: "IT_next h \<lparr>it_obj = ob, it_chunk = Some q, it_index = 0\<rparr> =
        Some (Inr (\<lparr>it_obj = ob, it_chunk = chain_head (skip_empty h rest), it_index = 0\<rparr>,
                   chain_head (skip_empty h rest) \<noteq> None))"
      using True q by (simp add: IT_next_def get_chunk_valid IT_next_skip_chain [OF chain])
    have fin: "iterate_skip h \<lparr>it_obj = ob, it_chunk = chain_head (skip_empty h rest), it_index = 0\<rparr>
        = Some (Inr \<lparr>it_obj = ob, it_chunk = chain_head (skip_empty h rest), it_index = 0\<rparr>)"
    proof (cases "skip_empty h rest")
      case Nil
      then show ?thesis by (subst iterate_skip.simps) (simp add: chain_head_def)
    next
      case (Cons r rs')
      then have ne: "skip_empty h rest \<noteq> []" by simp
      have "r \<in> set rest" using skip_empty_subset [of h rest] Cons by auto
      then have r: "r < length (chunks h)" using is_chain_bound [OF chain, of r] by simp
      have "chunk_length (chunks h ! r) \<noteq> 0" using skip_empty_head [OF ne] Cons by simp
      then show ?thesis using r
        by (subst iterate_skip.simps) (simp add: Cons chain_head_def get_chunk_valid)
    qed
    have sk: "skip_empty h (q # rest) = skip_empty h rest" using True by (simp add: skip_empty_def)
    show ?thesis using True q
      by (subst iterate_skip.simps) (simp add: p Cons get_chunk_valid nx fin sk)
  qed
qed

lemma cursor_at_start:
  assumes ch: "is_chain (chunks h) p ps" and ok: "list_all (\<lambda>r. chunk_ok C (chunks h ! r)) ps"
  shows "cursor_at C h \<lparr>it_obj = ob, it_chunk = chain_head (skip_empty h ps), it_index = 0\<rparr>
           (skip_empty h ps)"
proof -
  have 1: "is_chain (chunks h) (chain_head (skip_empty h ps)) (skip_empty h ps)"
    using is_chain_skip_empty [OF ch] .
  have 2: "list_all (\<lambda>r. chunk_ok C (chunks h ! r)) (skip_empty h ps)"
    using ok skip_empty_subset [of h ps] by (auto simp: list_all_iff)
  have 3: "skip_empty h ps \<noteq> [] \<longrightarrow> 0 < chunk_length (chunks h ! hd (skip_empty h ps))"
  proof
    assume n: "skip_empty h ps \<noteq> []"
    then have "hd (skip_empty h ps) \<in> set (skip_empty h ps)" by simp
    with 2 have "0 \<le> chunk_length (chunks h ! hd (skip_empty h ps))"
      by (auto simp: list_all_iff chunk_ok_def)
    with skip_empty_head [OF n] show "0 < chunk_length (chunks h ! hd (skip_empty h ps))"
      by simp
  qed
  from 1 2 3 show ?thesis by (simp add: cursor_at_def)
qed

lemma lengths_inv_chunk_ok: "lengths_inv C h ps = list_all (\<lambda>r. chunk_ok C (chunks h ! r)) ps"
  by (simp add: lengths_inv_def chunk_ok_def)

lemma iterate_chain:
  assumes "a < length (objs h)" and "is_chain (chunks h) (bigint_first (objs h ! a)) ps"
  shows "iterate h (Some a) =
           Some (Inr (Some \<lparr>it_obj = Some a, it_chunk = chain_head (skip_empty h ps),
                            it_index = 0\<rparr>))"
  using assms by (simp add: iterate_def get_obj_valid iterate_skip_chain)

lemma add_tail_returns:
  assumes inv: "acc_inv C h li a ls" and cur: "cursor_at C h ri rs"
    and disj: "set ls \<inter> set rs = {}"
  shows "\<exists>h'. add_tail C h li ri self = Some (Inr (h', self))"
proof -
  obtain h6 li3 ls3 carry where
    main: "add_main C h li ri 0 = Some (Inr (h6, li3, carry))"
    and inv6: "acc_inv C h6 li3 a ls3"
    using add_main_returns [OF inv cur disj refl, of 0] by blast
  obtain h7 where rip: "add_ripple C h6 li3 carry = Some (Inr h7)"
    using add_ripple_returns [OF inv6 refl, of carry] by blast
  show ?thesis by (simp add: add_tail_def main rip)
qed

lemma add_unfold_nonempty:
  assumes "iterate h (Some a) = Some (Inr (Some li))" and "iterate h (Some b) = Some (Inr (Some ri))"
    and "it_chunk li \<noteq> None"
  shows "add C h (Some a) (Some b) = add_tail C h li ri (Some a)"
  using assms by (auto simp: add_def add_tail_def)

lemma add_unfold_empty:
  assumes "iterate h (Some a) =
             Some (Inr (Some \<lparr>it_obj = Some a, it_chunk = None, it_index = 0\<rparr>))"
    and "iterate h (Some b) = Some (Inr (Some ri))"
    and "0 < C" and "a < length (objs h)" and "bigint_last (objs h ! a) = Some p"
    and "p < length (chunks h)"
  shows "add C h (Some a) (Some b) =
           add_tail C (grow C h a p)
             \<lparr>it_obj = Some a, it_chunk = Some (length (chunks h)), it_index = 0\<rparr> ri (Some a)"
  using assms
  apply (simp add: add_def add_tail_def)
  apply (simp add: newChunk_def get_chunk_valid array_set_valid upd_chunk_valid)
  apply (simp add: append_chunk_def upd_obj_valid get_obj_valid upd_chunk_valid nth_append)
  apply (simp add: grow_def list_update_append nth_append)
  done

lemma alias_step:
  assumes "alias_inv C h li ri"
  shows "\<exists>h2 li1 ri1 c1. alias_inv C h2 li1 ri1 \<and>
           (\<forall>f. liftE (IT_get h li) (\<lambda>lv.
                 liftE (IT_get h ri) (\<lambda>rv.
                 let sm = carry + lv + rv;
                     carry1 = add_carry_out sm lv rv
                 in
                 liftE (IT_set h li sm) (\<lambda>h1.
                 bindP (IT_next_with_extend C h1 li) (\<lambda>(h2, li1).
                 bindP (IT_next h2 ri) (\<lambda>(ri1, r).
                 f C h2 li1 ri1 carry1))))) = f C h2 li1 ri1 c1)"
proof -
  from assms obtain a p where inv: "acc_inv C h li a [p]" and rc: "it_chunk ri = Some p"
    and ri0: "it_index ri = 0" and li0: "it_index li = 0"
    and len: "chunk_length (chunks h ! p) = 1"
    by (auto simp: alias_inv_def)
  from inv have C: "0 < C" and lcur: "cursor_at C h li [p]" and a: "a < length (objs h)"
    by (simp_all add: acc_inv_def)
  from lcur have p: "p < length (chunks h)" and okp: "chunk_ok C (chunks h ! p)"
    by (simp_all add: cursor_at_def)
  obtain ob where ri: "ri = \<lparr>it_obj = ob, it_chunk = Some p, it_index = 0\<rparr>"
    using rc ri0 by (cases ri) simp
  have rcur: "cursor_at C h ri [p]" using lcur len by (simp add: ri cursor_at_def)
  let ?lv = "chunk_value (chunks h ! p) ! 0"
  have lv: "IT_get h li = Inr ?lv" using IT_get_cursor [OF lcur] li0 by simp
  have rv: "IT_get h ri = Inr ?lv" using IT_get_cursor [OF rcur] ri0 by simp
  let ?n = "length (chunks h)"
  let ?li1 = "\<lparr>it_obj = Some a, it_chunk = Some ?n, it_index = 0\<rparr>"
  let ?ri1 = "\<lparr>it_obj = ob, it_chunk = Some ?n, it_index = 0\<rparr>"
  have set: "IT_set h li v = Inr (set_word h p 0 v)" for v
    using IT_set_cursor [OF lcur] li0 by simp
  have inv1: "acc_inv C (set_word h p 0 v) li a [p]" for v
    using acc_inv_set_word [OF inv] .
  have len1: "chunk_length (chunks (set_word h p 0 v) ! p) = 1" for v
    using set_word_same_shape [of h p 0 v p] len by (simp add: same_shape_def)
  have np: "fst (next_pos (set_word h p 0 v) [p] (it_index li)) = []" for v
    using len1 li0 by (simp add: next_pos_def skip_empty_def)
  have ext: "IT_next_with_extend C (set_word h p 0 v) li =
      Some (Inr (grow C (set_word h p 0 v) a p, ?li1))" for v
    using IT_next_with_extend_acc [OF inv1] np by simp
  have p1: "p < length (chunks (set_word h p 0 v))" for v using p by simp
  have a1: "a < length (objs (set_word h p 0 v))" for v using a by simp
  have inv2: "acc_inv C (grow C (set_word h p 0 v) a p) ?li1 a [?n]" for v
    using acc_inv_grow [OF C a1 [of v] p1 [of v]] by simp
  have pn: "chunks (grow C (set_word h p 0 v) a p) ! p =
      (chunks (set_word h p 0 v) ! p)\<lparr>chunk_next := Some ?n\<rparr>" for v
    using p by (simp add: grow_def nth_append)
  have nn: "chunks (grow C (set_word h p 0 v) a p) ! ?n =
      \<lparr>chunk_prev = Some p, chunk_next = None, chunk_length = 1,
       chunk_value = (replicate C 0)[0 := 0]\<rparr>" for v
    using grow_chunks(3) [OF p1 [of v], of C a] by simp
  have l2: "length (chunks (grow C (set_word h p 0 v) a p)) = Suc ?n" for v
    using grow_chunks(1) [OF p1 [of v], of C a] by simp
  have nxt: "IT_next (grow C (set_word h p 0 v) a p) ri = Some (Inr (?ri1, True))" for v
    using p len1 [of v] pn [of v] nn [of v] l2 [of v]
    apply (simp add: IT_next_def ri get_chunk_valid)
    apply (subst IT_next_skip.simps)
    apply (simp add: get_chunk_valid)
    done
  have al: "alias_inv C (grow C (set_word h p 0 v) a p) ?li1 ?ri1" for v
    using inv2 [of v] nn [of v] by (auto simp: alias_inv_def)
  have "\<forall>f. liftE (IT_get h li) (\<lambda>lv.
                 liftE (IT_get h ri) (\<lambda>rv.
                 let sm = carry + lv + rv;
                     carry1 = add_carry_out sm lv rv
                 in
                 liftE (IT_set h li sm) (\<lambda>h1.
                 bindP (IT_next_with_extend C h1 li) (\<lambda>(h2, li1).
                 bindP (IT_next h2 ri) (\<lambda>(ri1, r).
                 f C h2 li1 ri1 carry1))))) =
            f C (grow C (set_word h p 0 (carry + ?lv + ?lv)) a p) ?li1 ?ri1
              (add_carry_out (carry + ?lv + ?lv) ?lv ?lv)"
    by (simp add: lv rv set ext nxt Let_def)
  with al [of "carry + ?lv + ?lv"] show ?thesis by blast
qed

lemma add_main_alias_diverges:
  assumes "alias_inv C h li ri"
  shows "add_main C h li ri carry = None"
proof (rule ccontr)
  assume "add_main C h li ri carry \<noteq> None"
  then obtain y where y: "add_main C h li ri carry = Some y" by auto
  have "\<not> alias_inv C h li ri"
  proof (rule add_main.raw_induct [where P = "\<lambda>C h li ri carry y. \<not> alias_inv C h li ri", OF _ y],
      goal_cases)
    case (1 f C h li ri carry y)
    show ?case
    proof
      assume inv: "alias_inv C h li ri"
      then have ne: "it_chunk ri \<noteq> None" by (auto simp: alias_inv_def)
      from alias_step [OF inv, of carry] obtain h2 li1 ri1 c1 where
        inv2: "alias_inv C h2 li1 ri1"
        and eq: "liftE (IT_get h li) (\<lambda>lv.
                 liftE (IT_get h ri) (\<lambda>rv.
                 let sm = carry + lv + rv;
                     carry1 = add_carry_out sm lv rv
                 in
                 liftE (IT_set h li sm) (\<lambda>h1.
                 bindP (IT_next_with_extend C h1 li) (\<lambda>(h2, li1).
                 bindP (IT_next h2 ri) (\<lambda>(ri1, r).
                 f C h2 li1 ri1 carry1))))) = f C h2 li1 ri1 c1"
        by blast
      from 1(2) ne eq have fy: "f C h2 li1 ri1 c1 = Some y" by simp
      from 1(1) [OF fy] inv2 show False by simp
    qed
  qed
  with assms show False by simp
qed

lemma fresh4_alias:
  "alias_inv 4 fresh4 \<lparr>it_obj = Some 0, it_chunk = Some 0, it_index = 0\<rparr>
     \<lparr>it_obj = Some 0, it_chunk = Some 0, it_index = 0\<rparr>"
  unfolding alias_inv_def acc_inv_def cursor_at_def chunk_ok_def
  by (rule exI [of _ 0], rule exI [of _ 0]) (simp add: fresh4_def mk_chunk_def mk_bigint_def)

section \<open>Steps of bulk load and of rendering\<close>

declare uintToHex_loop.simps [simp del]
declare toString_words.simps [simp del]
declare setValue_copy.simps [simp del]

lemma nibble_range: "0 \<le> uint (u AND (0x0f :: uint))" "uint (u AND (0x0f :: uint)) < 16"
proof -
  show "0 \<le> uint (u AND (0x0f :: uint))" by simp
  have "u AND 0x0f \<le> 0x0f" by (rule word_and_le1)
  then have "uint (u AND 0x0f) \<le> uint (0x0f :: uint)" by (simp add: word_le_def)
  then show "uint (u AND (0x0f :: uint)) < 16" by simp
qed

lemma nibble_value: "uint (drop_bit k u AND (0x0f :: uint)) = (uint u div 2 ^ k) mod 16"
proof -
  have "(0x0f :: uint) = mask 4" by (simp add: mask_eq_exp_minus_1)
  then have "drop_bit k u AND (0x0f :: uint) = take_bit 4 (drop_bit k u)"
    by (simp add: take_bit_eq_mask)
  then have "uint (drop_bit k u AND (0x0f :: uint)) = take_bit 4 (uint (drop_bit k u))"
    by (simp add: unsigned_take_bit_eq)
  also have "uint (drop_bit k u) = drop_bit k (uint u)"
    by (simp add: unsigned_drop_bit_eq bintr_uint)
  finally show ?thesis by (simp add: take_bit_eq_mod drop_bit_eq_div)
qed

lemma hex_get: "array_get hex (uint (u AND (0x0f :: uint))) = Inr (hex ! unat (u AND 0x0f))"
  using nibble_range [of u] by (simp add: array_get_def hex_def)

lemma uintToHex_loop_run:
  assumes "0 \<le> target" and "i + k = 8" and "nat target + 8 \<le> length buf"
  shows "uintToHex_loop buf target (int i) u =
           Inr (take (nat target + i) buf @
                map (\<lambda>j. Some (hex ! unat (drop_bit (4 * j) u AND 0x0f))) [0..<k] @
                drop (nat target + 8) buf)"
  using assms
proof (induction k arbitrary: i u buf)
  case 0
  then have i: "i = 8" by simp
  show ?case using "0.prems"(3)
    by (subst uintToHex_loop.simps) (simp add: i charsPerUint_def)
next
  case (Suc k)
  then have i: "i < 8" and ik: "Suc i + k = 8" by simp_all
  let ?x = "Some (hex ! unat (u AND 0x0f))"
  have pos: "nat (target + int i) = nat target + i" using Suc.prems(1) by (simp add: nat_add_distrib)
  have inb: "nat target + i < length buf" using i Suc.prems(3) by simp
  have set: "array_set buf (target + int i) ?x = Inr (buf[nat target + i := ?x])"
    using Suc.prems(1) inb by (simp add: array_set_def pos)
  have len: "nat target + 8 \<le> length (buf[nat target + i := ?x])" using Suc.prems(3) by simp
  have rec: "uintToHex_loop (buf[nat target + i := ?x]) target (int (Suc i)) (drop_bit 4 u) =
      Inr (take (nat target + Suc i) (buf[nat target + i := ?x]) @
           map (\<lambda>j. Some (hex ! unat (drop_bit (4 * j) (drop_bit 4 u) AND 0x0f))) [0..<k] @
           drop (nat target + 8) (buf[nat target + i := ?x]))"
    using Suc.IH [OF Suc.prems(1) ik len] .
  have tk: "take (nat target + Suc i) (buf[nat target + i := ?x]) = take (nat target + i) buf @ [?x]"
    using inb by (simp add: take_Suc_conv_app_nth)
  have dr: "drop (nat target + 8) (buf[nat target + i := ?x]) = drop (nat target + 8) buf"
    using i by simp
  have mp: "map (\<lambda>j. Some (hex ! unat (drop_bit (4 * j) u AND 0x0f))) [0..<Suc k] =
      ?x # map (\<lambda>j. Some (hex ! unat (drop_bit (4 * j) (drop_bit 4 u) AND 0x0f))) [0..<k]"
    by (simp add: map_upt_Suc add.commute del: upt_Suc)
  have "uintToHex_loop buf target (int i) u =
      uintToHex_loop (buf[nat target + i := ?x]) target (int (Suc i)) (drop_bit 4 u)"
    using i by (subst uintToHex_loop.simps) (simp add: charsPerUint_def hex_get set add.commute)
  then show ?case by (simp only: rec tk dr mp) simp
qed

lemma uintToHex_run:
  assumes "0 \<le> target" and "nat target + 9 \<le> length buf"
  shows "uintToHex buf target u =
           Inr (take (nat target) buf @ map Some (hex_lsf u) @ [Some (CHR 0x00)] @
                drop (nat target + 9) buf, 0)"
proof -
  have 1: "uintToHex_loop buf target (int 0) u =
      Inr (take (nat target + 0) buf @
           map (\<lambda>j. Some (hex ! unat (drop_bit (4 * j) u AND 0x0f))) [0..<8] @
           drop (nat target + 8) buf)"
    using uintToHex_loop_run [OF assms(1), of 0 8 buf u] assms(2) by simp
  let ?b = "take (nat target) buf @ map Some (hex_lsf u) @ drop (nat target + 8) buf"
  have l: "length (take (nat target) buf) = nat target" using assms(2) by simp
  have 2: "array_set ?b (target + charsPerUint) (Some (CHR 0x00)) =
      Inr (take (nat target) buf @ map Some (hex_lsf u) @ [Some (CHR 0x00)] @
           drop (nat target + 9) buf)"
  proof -
    have d: "drop (nat target + 8) buf = buf ! (nat target + 8) # drop (nat target + 9) buf"
      using assms(2) Cons_nth_drop_Suc [of "nat target + 8" buf, symmetric]
      by (simp add: add.commute)
    have n: "nat (target + 8) = nat target + 8"
      using assms(1) by (simp add: nat_add_distrib)
    have len: "target + charsPerUint < int (length ?b)"
      using assms by (simp add: charsPerUint_def hex_lsf_def)
    have "?b[nat target + 8 := Some (CHR 0x00)] =
        take (nat target) buf @ map Some (hex_lsf u) @ [Some (CHR 0x00)] @ drop (nat target + 9) buf"
      using l by (simp add: d list_update_append hex_lsf_def)
    then show ?thesis using assms(1) len by (simp add: array_set_def n charsPerUint_def)
  qed
  from 1 2 show ?thesis
    by (simp add: uintToHex_def hex_lsf_def comp_def)
qed

lemma hex_lsf_length [simp]: "length (hex_lsf u) = 8"
  by (simp add: hex_lsf_def)

lemma toString_words_run:
  assumes "chunk_length c = int n" and "n \<le> length (chunk_value c)" and "i + m = n"
    and "0 \<le> p" and "nat p + 8 * m + 1 \<le> length buf"
  shows "toString_words c (int i) buf p =
           Inr (if m = 0 then buf
                else take (nat p) buf @
                     map Some (concat (map hex_lsf (take m (drop i (chunk_value c))))) @
                     [Some (CHR 0x00)] @ drop (nat p + 8 * m + 1) buf,
                p + 8 * int m)"
  using assms(3-5)
proof (induction m arbitrary: i buf p)
  case 0
  then show ?case using assms(1)
    by (subst toString_words.simps) simp
next
  case (Suc m)
  then have i: "i < n" and im: "Suc i + m = n" by simp_all
  let ?vs = "chunk_value c"
  let ?w = "?vs ! i"
  let ?buf1 = "take (nat p) buf @ map Some (hex_lsf ?w) @ [Some (CHR 0x00)] @ drop (nat p + 9) buf"
  have get: "array_get ?vs (int i) = Inr ?w" using i assms(2) by (simp add: array_get_def)
  have hx: "uintToHex buf p ?w = Inr (?buf1, 0)"
    using uintToHex_run [OF Suc.prems(2), of buf ?w] Suc.prems(3) by simp
  have p8: "0 \<le> p + 8" and np8: "nat (p + 8) = nat p + 8"
    using Suc.prems(2) by (simp_all add: nat_add_distrib)
  have len1: "length ?buf1 = length buf" using Suc.prems(3) by simp
  have b1: "nat (p + 8) + 8 * m + 1 \<le> length ?buf1" using Suc.prems(3) len1 np8 by simp
  note IH = Suc.IH [OF im p8 b1]
  have tk1: "take (nat p + 8) ?buf1 = take (nat p) buf @ map Some (hex_lsf ?w)"
    using Suc.prems(3) by simp
  have dr1: "drop (nat p + 8 + 8 * m + 1) ?buf1 = drop (nat p + 8 * Suc m + 1) buf" if "0 < m"
    using Suc.prems(3) that by (simp add: add.commute add.left_commute)
  have ws: "take (Suc m) (drop i ?vs) = ?w # take m (drop (Suc i) ?vs)"
    using i assms(2) Cons_nth_drop_Suc [of i ?vs, symmetric] by simp
  have step: "toString_words c (int i) buf p = toString_words c (int (Suc i)) ?buf1 (p + 8)"
    using i assms(1)
    by (subst toString_words.simps) (simp add: get hx charsPerUint_def add.commute)
  show ?case
  proof (cases "m = 0")
    case True
    then show ?thesis using step IH ws by (simp add: add.commute)
  next
    case False
    then have m: "0 < m" by simp
    have "toString_words c (int (Suc i)) ?buf1 (p + 8) =
        Inr (take (nat p + 8) ?buf1 @
             map Some (concat (map hex_lsf (take m (drop (Suc i) ?vs)))) @
             [Some (CHR 0x00)] @ drop (nat p + 8 + 8 * m + 1) ?buf1, p + 8 + 8 * int m)"
      using IH False by (simp only: np8 if_False)
    then show ?thesis using step ws
      by (simp only: tk1 dr1 [OF m]) simp
  qed
qed

lemma setValue_copy_run:
  assumes "chunk_length c = int n" and "n \<le> length (chunk_value c)" and "n \<le> length ws"
    and "i + m = n"
  shows "setValue_copy c ws (int i) (int i) =
           Inr (c\<lparr>chunk_value := take i (chunk_value c) @ take m (drop i ws) @
                                    drop n (chunk_value c)\<rparr>, int n)"
  using assms
proof (induction m arbitrary: i c)
  case 0
  then show ?case by (subst setValue_copy.simps) simp
next
  case (Suc m)
  then have i: "i < n" and im: "Suc i + m = n" by simp_all
  let ?v = "chunk_value c"
  let ?c1 = "c\<lparr>chunk_value := ?v[i := ws ! i]\<rparr>"
  have get: "array_get ws (int i) = Inr (ws ! i)" using i Suc.prems(3) by (simp add: array_get_def)
  have set: "array_set ?v (int i) (ws ! i) = Inr (?v[i := ws ! i])"
    using i Suc.prems(2) by (simp add: array_set_def)
  have c1: "chunk_length ?c1 = int n" "n \<le> length (chunk_value ?c1)"
    using Suc.prems by simp_all
  note IH = Suc.IH [OF c1 Suc.prems(3) im]
  have step: "setValue_copy c ws (int i) (int i) = setValue_copy ?c1 ws (int (Suc i)) (int (Suc i))"
    using i Suc.prems(1)
    by (subst setValue_copy.simps) (simp add: get set add.commute)
  have tk: "take (Suc i) (?v[i := ws ! i]) = take i ?v @ [ws ! i]"
    using i Suc.prems(2) by (simp add: take_Suc_conv_app_nth)
  have dr: "drop n (?v[i := ws ! i]) = drop n ?v" using i by simp
  have ws: "take (Suc m) (drop i ws) = ws ! i # take m (drop (Suc i) ws)"
    using i Suc.prems(3) Cons_nth_drop_Suc [of i ws, symmetric] by simp
  show ?case using step IH by (simp add: tk dr ws)
qed

lemma cstring_digits:
  "CHR 0x00 \<notin> set ds \<Longrightarrow> cstring (map Some ds @ Some (CHR 0x00) # rest) = Some ds"
  by (induction ds) auto

lemma nibble_unat: "unat (u AND (0x0f :: uint)) < 16"
proof -
  have "unat (u AND 0x0f) \<le> unat (0x0f :: uint)"
    by (rule word_and_le1 [THEN word_le_nat_alt [THEN iffD1]])
  then show ?thesis by simp
qed

lemma hex_length: "length hex = 16"
  by (simp add: hex_def)

lemma hex_nth_mem: "k < 16 \<Longrightarrow> hex ! k \<in> set hex"
  using nth_mem [of k hex] by (simp only: hex_length)

lemma hex_no_null: "CHR 0x00 \<notin> set hex"
  by (simp add: hex_def)

lemma hex_lsf_no_null: "CHR 0x00 \<notin> set (hex_lsf u)"
proof
  assume "CHR 0x00 \<in> set (hex_lsf u)"
  then obtain j where "CHR 0x00 = hex ! unat (drop_bit (4 * j) u AND 0x0f)"
    by (auto simp: hex_lsf_def)
  with hex_nth_mem [OF nibble_unat, of "drop_bit (4 * j) u"] hex_no_null show False
    by simp
qed

lemma concat_hex_lsf_no_null: "CHR 0x00 \<notin> set (concat (map hex_lsf ws))"
  using hex_lsf_no_null by auto

lemma upt_8: "[0..<8] = [0, 1, 2, 3, 4, 5, 6, 7 :: nat]"
  by code_simp

lemma hex_lsf_rev: "hex_lsf u = rev (hex_word u)"
proof -
  have "unat (drop_bit k u AND (0x0f :: uint)) = nat ((uint u div 2 ^ k) mod 16)" for k
    by (simp only: unat_eq_nat_uint nibble_value)
  then show ?thesis
    by (simp add: hex_lsf_def hex_word_def hex_digit_def hex_def upt_8)
qed

lemma one_chunk_sizes:
  assumes "ws \<noteq> []" and "8 * length ws \<le> C"
  shows "0 < C" and "length ws < C"
    and "int (length ws) sdiv int C = 0" and "int (length ws) smod int C \<noteq> 0"
proof -
  from assms have n: "0 < length ws" by simp
  with assms(2) show "0 < C" and lt: "length ws < C" by linarith+
  from n lt show "int (length ws) sdiv int C = 0"
    by (simp add: signed_divide_int_def)
  from n lt show "int (length ws) smod int C \<noteq> 0"
    by (simp add: signed_modulo_int_def sgn_if)
qed

lemma setValue_one_chunk:
  assumes inv: "chain_inv h a [p]" and cap: "length (chunk_value (chunks h ! p)) = C"
    and ne: "ws \<noteq> []" and fit: "8 * length ws \<le> C"
  shows "setValue C h (Some a) (int (length ws)) (Some ws) =
           Some (Inr (h\<lparr>chunks := (chunks h)[p := (chunks h ! p)
                        \<lparr>chunk_length := int (length ws),
                         chunk_value := ws @ drop (length ws) (chunk_value (chunks h ! p))\<rparr>]\<rparr>, 0))"
proof -
  from inv have a: "a < length (objs h)" and fst: "bigint_first (objs h ! a) = Some p"
    and p: "p < length (chunks h)" and nx: "chunk_next (chunks h ! p) = None"
    and len: "bigint_length (objs h ! a) = 1"
    by (simp_all add: chain_inv_def)
  note sz = one_chunk_sizes [OF ne fit]
  let ?n = "length ws"
  let ?c = "(chunks h ! p)\<lparr>chunk_length := int ?n\<rparr>"
  have ext: "setValue_extend C h (Some a) 1 = Some (Inr h)"
    using a len by (subst setValue_extend.simps) (simp add: get_obj_valid)
  have copy: "setValue_copy ?c ws 0 0 =
      Inr (?c\<lparr>chunk_value := ws @ drop ?n (chunk_value (chunks h ! p))\<rparr>, int ?n)"
    using setValue_copy_run [of ?c ?n ws 0 ?n] cap sz(2) by simp
  have fin: "setValue_fill C h' (int ?n) ws None k = Some (Inr h')" for h' k
    by (subst setValue_fill.simps) simp
  have fill: "setValue_fill C h (int ?n) ws (Some p) 0 =
      Some (Inr (h\<lparr>chunks := (chunks h)[p := (chunks h ! p)
                        \<lparr>chunk_length := int ?n,
                         chunk_value := ws @ drop ?n (chunk_value (chunks h ! p))\<rparr>]\<rparr>))"
    using p sz(2) nx
    by (subst setValue_fill.simps)
       (simp add: upd_chunk_valid get_chunk_valid copy fin)
  show ?thesis
    using a len fst sz
    by (simp add: setValue_def get_obj_valid ext fill)
qed

lemma toString_one_chunk:
  assumes a: "a < length (objs h)" and fst: "bigint_first (objs h ! a) = Some p"
    and len: "bigint_length (objs h ! a) = 1"
    and p: "p < length (chunks h)" and nx: "chunk_next (chunks h ! p) = None"
    and cl: "chunk_length (chunks h ! p) = int n" and cv: "n \<le> length (chunk_value (chunks h ! p))"
    and n: "0 < n" and fit: "8 * n \<le> C"
  shows "toString C h (Some a) =
           Some (Inr (Some (map Some (concat (map hex_lsf (take n (chunk_value (chunks h ! p))))) @
                            Some (CHR 0x00) # replicate (C - 8 * n) None)))"
proof -
  let ?buf = "replicate (Suc C) (None :: char option)"
  have nc: "nat (1 + int C) = Suc C" by simp
  have w: "toString_words (chunks h ! p) (int 0) ?buf 0 =
      Inr (take (nat 0) ?buf @
           map Some (concat (map hex_lsf (take n (drop 0 (chunk_value (chunks h ! p)))))) @
           [Some (CHR 0x00)] @ drop (nat 0 + 8 * n + 1) ?buf, 0 + 8 * int n)"
    using toString_words_run [OF cl cv, of 0 n 0 ?buf] n fit by simp
  have fin: "toString_chunks h None b k = Some (Inr b)" for b k
    by (subst toString_chunks.simps) simp
  have ch: "toString_chunks h (Some p) ?buf 0 =
      Some (Inr (map Some (concat (map hex_lsf (take n (chunk_value (chunks h ! p))))) @
                 Some (CHR 0x00) # replicate (C - 8 * n) None))"
    using p nx w fit
    by (subst toString_chunks.simps) (simp add: get_chunk_valid fin)
  show ?thesis
    using a fst len
    by (simp add: toString_def get_obj_valid toString_numChars_def nc ch del: replicate_Suc)
qed

section \<open>Addition: the carry\<close>

text \<open>
  C1. \<^verbatim>\<open>add(a, b)\<close> should leave in \<open>a\<close> the sum of the two numbers. It does not when a
  carry enters a position where both words are \<open>0xffffffff\<close>: with \<open>a = [0xffffffff,
  0xffffffff]\<close> and \<open>b = [1, 0xffffffff]\<close> (least-significant word first, both valid
  containers), \<^verbatim>\<open>add\<close> returns \<open>a\<close> holding \<open>[0, 0xffffffff, 0]\<close>, which is
  \<open>18446744069414584320\<close>, while the sum of the two numbers is \<open>36893488143124135936\<close>.
\<close>

theorem add_drops_carry_between_saturated_words:
  "chain_inv carry_heap 0 [0] \<and> chain_words carry_heap [0] = [0xffffffff, 0xffffffff] \<and>
   chain_inv carry_heap 1 [1] \<and> chain_words carry_heap [1] = [1, 0xffffffff] \<and>
   add 4 carry_heap (Some 0) (Some 1) = Some (Inr (carry_heap_sum, Some 0)) \<and>
   chain_inv carry_heap_sum 0 [0, 2] \<and>
   chain_words carry_heap_sum [0, 2] = [0, 0xffffffff, 0] \<and>
   word_value [0, 0xffffffff, 0] = 18446744069414584320 \<and>
   word_value [0xffffffff, 0xffffffff] + word_value [1, 0xffffffff] = 36893488143124135936"
  by code_simp

text \<open>
  C2. The test \<^verbatim>\<open>sum < lv || sum < rv\<close> should give the carry-out of \<open>carry + lv + rv\<close>.
  With carry 1 and both words \<open>0xffffffff\<close> the wrapped sum is \<open>0xffffffff\<close>, smaller than
  neither word, so the test gives 0 while the carry-out is 1.
\<close>

theorem carry_test_misses_saturated_words:
  "add_carry_out (1 + 0xffffffff + 0xffffffff) 0xffffffff 0xffffffff = 0 \<and>
   true_carry_out 1 0xffffffff 0xffffffff = 1"
  by code_simp

section \<open>Growth of the accumulator\<close>

text \<open>
  C3. Advance-with-growth on an exhausted cursor should extend the tail chunk when its
  valid length is below \<open>C\<close>. On a fresh container with \<open>C = 4\<close> the tail chunk has valid
  length 1 and the cursor on its only word is exhausted by a plain advance; \<^verbatim>\<open>IT_next_with_extend\<close>
  appends a second chunk and leaves the first at valid length 1.
\<close>

theorem advance_with_growth_appends_despite_spare_capacity:
  "chain_inv fresh4 0 [0] \<and> chunk_length (chunks fresh4 ! 0) = 1 \<and>
   IT_next fresh4 \<lparr>it_obj = Some 0, it_chunk = Some 0, it_index = 0\<rparr> =
     Some (Inr (\<lparr>it_obj = Some 0, it_chunk = None, it_index = 0\<rparr>, False)) \<and>
   IT_next_with_extend 4 fresh4 \<lparr>it_obj = Some 0, it_chunk = Some 0, it_index = 0\<rparr> =
     Some (Inr (fresh4_grown, \<lparr>it_obj = Some 0, it_chunk = Some 1, it_index = 0\<rparr>)) \<and>
   chain_inv fresh4_grown 0 [0, 1] \<and> chunk_length (chunks fresh4_grown ! 0) = 1"
  by code_simp

text \<open>
  C4. \<^verbatim>\<open>add\<close> should keep every chunk but the last full. Adding a fresh container to a
  fresh container with \<open>C = 4\<close> (both satisfy the invariant) leaves the accumulator with the
  chain \<open>[0, 2]\<close> whose first chunk has valid length 1.
\<close>

theorem add_breaks_interior_full:
  "chain_inv pair4 0 [0] \<and> lengths_inv 4 pair4 [0] \<and> interior_full 4 pair4 [0] \<and>
   chain_inv pair4 1 [1] \<and> lengths_inv 4 pair4 [1] \<and> interior_full 4 pair4 [1] \<and>
   add 4 pair4 (Some 0) (Some 1) = Some (Inr (pair4_sum, Some 0)) \<and>
   chain_inv pair4_sum 0 [0, 2] \<and> \<not> interior_full 4 pair4_sum [0, 2]"
  by code_simp

section \<open>Bulk load\<close>

text \<open>
  C5. A bulk load into a container with more chunks than needed should cut the chain at the
  chunk holding the last word and make it the tail. Loading one word (\<open>C = 2\<close>) into a
  container of two chunks, the trimming loop ends with \<open>p\<close> \<^verbatim>\<open>NULL\<close>, not at the first
  chunk; the call leaves the tail reference \<^verbatim>\<open>NULL\<close>, the stored count 1 and both chunks
  still linked.
\<close>

theorem bulk_load_truncation_loses_tail:
  "chain_inv loaded2 0 [0, 1] \<and> lengths_inv 2 loaded2 [0, 1] \<and>
   setValue_trim loaded2 0 1 (bigint_first (objs loaded2 ! 0)) = Some (Inr None) \<and>
   setValue 2 loaded2 (Some 0) 1 (Some [9, 8]) = Some (Inr (loaded2_cut, 0)) \<and>
   bigint_last (objs loaded2_cut ! 0) = None \<and>
   bigint_length (objs loaded2_cut ! 0) = 1 \<and>
   is_chain (chunks loaded2_cut) (bigint_first (objs loaded2_cut ! 0)) [0, 1]"
  by code_simp

text \<open>
  C6. Every public operation should keep the stored count equal to the number of chunks, and
  the length at least 1. A bulk load of no words into a fresh container succeeds and
  leaves the stored count 0 with one chunk in the chain; \<^verbatim>\<open>lengthBigInt\<close> then returns 0.
  A bulk load of one word into a container of two chunks (\<open>C = 2\<close>) leaves the stored
  count 1 with two chunks in the chain and no tail reference.
\<close>

theorem bulk_load_of_no_words_breaks_count:
  "chain_inv fresh4 0 [0] \<and>
   setValue 4 fresh4 (Some 0) 0 (Some [7]) = Some (Inr (fresh4_zero, 0)) \<and>
   lengthBigInt fresh4_zero (Some 0) = Inr 0 \<and>
   is_chain (chunks fresh4_zero) (bigint_first (objs fresh4_zero ! 0)) [0] \<and>
   \<not> chain_inv fresh4_zero 0 [0] \<and>
   chain_inv loaded2 0 [0, 1] \<and>
   setValue 2 loaded2 (Some 0) 1 (Some [9, 8]) = Some (Inr (loaded2_cut, 0)) \<and>
   lengthBigInt loaded2_cut (Some 0) = Inr 1 \<and>
   is_chain (chunks loaded2_cut) (bigint_first (objs loaded2_cut ! 0)) [0, 1] \<and>
   \<not> chain_inv loaded2_cut 0 [0, 1]"
  by code_simp

text \<open>
  C8. A bulk load should give the last chunk the valid length \<open>wordCount mod C\<close> and read no
  word at an index from \<open>wordCount\<close> on. Loading 3 words with \<open>C = 2\<close> from an array of 4
  gives the second chunk valid length 2 and copies the fourth word; from an array of
  exactly 3 words it reads past the array.
\<close>

theorem bulk_load_fills_last_chunk_past_count:
  "setValue 2 fresh2 (Some 0) 3 (Some [1, 2, 3, 4]) = Some (Inr (loaded2, 0)) \<and>
   chain_inv loaded2 0 [0, 1] \<and>
   chunk_length (chunks loaded2 ! 1) = 2 \<and>
   chain_words loaded2 [0, 1] = [1, 2, 3, 4] \<and>
   setValue 2 fresh2 (Some 0) 3 (Some [1, 2, 3]) = Some (Inl OutOfBounds)"
  by code_simp

section \<open>Rendering\<close>

text \<open>
  C9. \<^verbatim>\<open>toString\<close> should allocate \<open>(count * C) * 8 + 1\<close> characters so that every
  character written lies in the buffer. For a fresh container with \<open>C = 4\<close> it allocates
  5, not 33, and writing the nine characters of the one word leaves the buffer.
\<close>

theorem render_buffer_too_small:
  "toString_numChars 4 (objs fresh4 ! 0) = 5 \<and>
   (bigint_length (objs fresh4 ! 0) * 4) * charsPerUint + 1 = 33 \<and>
   toString 4 fresh4 (Some 0) = Some (Inl OutOfBounds)"
  by code_simp


text \<open>
  C7, as the code has it. For every non-empty word array whose rendering fits the buffer
  \<^verbatim>\<open>toString\<close> allocates (\<open>8 * count \<le> C\<close>), loaded into a container of one chunk,
  \<^verbatim>\<open>setValue\<close> succeeds and leaves exactly the given words in the container, and
  \<^verbatim>\<open>toString\<close> then yields the concatenation, in array order, of each word's eight
  lowercase hexadecimal digits with the least-significant nibble first (the reverse of the
  most-significant-first rendering), with no separators, ended by a null character.
\<close>

theorem bulk_load_then_render:
  assumes inv: "chain_inv h a [p]" and cap: "length (chunk_value (chunks h ! p)) = C"
    and ne: "ws \<noteq> []" and fit: "8 * length ws \<le> C"
  shows "\<exists>h' buf. setValue C h (Some a) (int (length ws)) (Some ws) = Some (Inr (h', 0)) \<and>
           chain_inv h' a [p] \<and> chain_words h' [p] = ws \<and>
           toString C h' (Some a) = Some (Inr (Some buf)) \<and>
           cstring buf = Some (concat (map (\<lambda>w. rev (hex_word w)) ws))"
proof -
  let ?n = "length ws"
  let ?h' = "h\<lparr>chunks := (chunks h)[p := (chunks h ! p)
                        \<lparr>chunk_length := int ?n,
                         chunk_value := ws @ drop ?n (chunk_value (chunks h ! p))\<rparr>]\<rparr>"
  let ?ds = "concat (map hex_lsf ws)"
  let ?buf = "map Some ?ds @ Some (CHR 0x00) # replicate (C - 8 * ?n) None"
  from inv have a: "a < length (objs h)" and fst: "bigint_first (objs h ! a) = Some p"
    and p: "p < length (chunks h)" and nx: "chunk_next (chunks h ! p) = None"
    and len: "bigint_length (objs h ! a) = 1"
    by (simp_all add: chain_inv_def)
  from ne have n: "0 < ?n" by simp
  have 1: "setValue C h (Some a) (int ?n) (Some ws) = Some (Inr (?h', 0))"
    using setValue_one_chunk [OF inv cap ne fit] .
  have 2: "chain_inv ?h' a [p]" using inv p by (simp add: chain_inv_def)
  have 3: "chain_words ?h' [p] = ws" using p by (simp add: chain_words_def chunk_words_def)
  have 4: "toString C ?h' (Some a) = Some (Inr (Some ?buf))"
    using toString_one_chunk [of a ?h' p ?n C] a fst len p nx n fit by simp
  have 5: "cstring ?buf = Some ?ds" using cstring_digits [OF concat_hex_lsf_no_null] .
  have "hex_lsf = (\<lambda>w. rev (hex_word w))" by (rule ext) (rule hex_lsf_rev)
  then have 6: "?ds = concat (map (\<lambda>w. rev (hex_word w)) ws)" by simp
  from 1 2 3 4 5 6 show ?thesis by metis
qed

theorem bulk_load_then_render_witness:
  "chain_inv fresh40 0 [0] \<and> length (chunk_value (chunks fresh40 ! 0)) = 40 \<and>
   five_words \<noteq> [] \<and> 8 * length five_words \<le> 40 \<and>
   (\<exists>h' buf. setValue 40 fresh40 (Some 0) (int (length five_words)) (Some five_words) =
                 Some (Inr (h', 0)) \<and>
      chain_inv h' 0 [0] \<and> chain_words h' [0] = five_words \<and>
      toString 40 h' (Some 0) = Some (Inr (Some buf)) \<and>
      cstring buf = Some (concat (map (\<lambda>w. rev (hex_word w)) five_words))) \<and>
   concat (map (\<lambda>w. rev (hex_word w)) five_words) =
     ''00000000ffffffff100000008765432100000008''"
proof -
  have 1: "chain_inv fresh40 0 [0]" by code_simp
  have 2: "length (chunk_value (chunks fresh40 ! 0)) = 40" by code_simp
  have 3: "five_words \<noteq> []" by (simp add: five_words_def)
  have 4: "8 * length five_words \<le> 40" by (simp add: five_words_def)
  have 5: "concat (map (\<lambda>w. rev (hex_word w)) five_words) =
      ''00000000ffffffff100000008765432100000008''"
    by code_simp
  from bulk_load_then_render [OF 1 2 3 4] 1 2 3 4 5 show ?thesis by blast
qed

text \<open>
  C7, as stated, has the most-significant nibble first. With \<open>C = 8\<close>, loading the word 1
  into a fresh container and rendering it gives \<open>10000000\<close>, not \<open>00000001\<close>. (With \<open>C = 4\<close>
  the rendering of the one word does not fit the buffer, as in C9.)
\<close>

theorem render_nibble_order_counterexample:
  "setValue 8 fresh8 (Some 0) 1 (Some [1]) = Some (Inr (one8, 0)) \<and>
   toString 8 one8 (Some 0) = Some (Inr (Some (map Some ''10000000'' @ [Some (CHR 0x00)]))) \<and>
   cstring (map Some ''10000000'' @ [Some (CHR 0x00)]) = Some ''10000000'' \<and>
   concat (map hex_word [1]) = ''00000001'' \<and>
   setValue 4 fresh4 (Some 0) 1 (Some [1]) = Some (Inr (one4, 0)) \<and>
   toString 4 one4 (Some 0) = Some (Inl OutOfBounds)"
  by code_simp

section \<open>Addition: termination\<close>

text \<open>
  C10, as the code has it. \<^verbatim>\<open>add(a, b)\<close> returns \<open>a\<close> for every two containers that
  satisfy the container invariant, whose chunks have valid lengths in \<open>[0, C]\<close> and whose
  chains share no chunk (so \<open>a\<close> and \<open>b\<close> are not the same container): the main loop ends
  when the addend's cursor is exhausted, the carry loop at the first word that does not
  wrap or on the word the accumulator grew by.
\<close>

theorem add_returns_on_disjoint_containers:
  assumes C: "0 < C"
    and ia: "chain_inv h a ps" and la: "lengths_inv C h ps"
    and ib: "chain_inv h b qs" and lb: "lengths_inv C h qs"
    and disj: "set ps \<inter> set qs = {}"
  shows "\<exists>h'. add C h (Some a) (Some b) = Some (Inr (h', Some a))"
proof -
  from ia have a: "a < length (objs h)" and pne: "ps \<noteq> []"
    and cha: "is_chain (chunks h) (bigint_first (objs h ! a)) ps"
    and lst: "bigint_last (objs h ! a) = Some (last ps)"
    by (simp_all add: chain_inv_def)
  from ib have b: "b < length (objs h)"
    and chb: "is_chain (chunks h) (bigint_first (objs h ! b)) qs"
    by (simp_all add: chain_inv_def)
  let ?li = "\<lparr>it_obj = Some a, it_chunk = chain_head (skip_empty h ps), it_index = 0\<rparr>"
  let ?ri = "\<lparr>it_obj = Some b, it_chunk = chain_head (skip_empty h qs), it_index = 0\<rparr>"
  have itl: "iterate h (Some a) = Some (Inr (Some ?li))" using iterate_chain [OF a cha] .
  have itr: "iterate h (Some b) = Some (Inr (Some ?ri))" using iterate_chain [OF b chb] .
  have curl: "cursor_at C h ?li (skip_empty h ps)"
    using cursor_at_start [OF cha] la by (simp add: lengths_inv_chunk_ok)
  have curr: "cursor_at C h ?ri (skip_empty h qs)"
    using cursor_at_start [OF chb] lb by (simp add: lengths_inv_chunk_ok)
  have p: "last ps < length (chunks h)"
    using is_chain_bound [OF cha, of "last ps"] pne by simp
  have qb: "\<forall>r\<in>set (skip_empty h qs). r < length (chunks h) \<and> r \<notin> set ps"
    using skip_empty_subset [of h qs] is_chain_bound [OF chb] disj by auto
  show ?thesis
  proof (cases "skip_empty h ps = []")
    case True
    let ?h5 = "grow C h a (last ps)"
    let ?li2 = "\<lparr>it_obj = Some a, it_chunk = Some (length (chunks h)), it_index = 0\<rparr>"
    have 1: "acc_inv C ?h5 ?li2 a [length (chunks h)]" using acc_inv_grow [OF C a p] .
    have "\<forall>r\<in>set (skip_empty h qs). same_shape (chunks ?h5 ! r) (chunks h ! r)"
    proof
      fix r assume "r \<in> set (skip_empty h qs)"
      with qb have "r < length (chunks h)" and "r \<noteq> last ps" using pne by auto
      then show "same_shape (chunks ?h5 ! r) (chunks h ! r)"
        using grow_chunks(2) [OF p, of r C a] by simp
    qed
    then have 2: "cursor_at C ?h5 ?ri (skip_empty h qs)"
      using cursor_at_cong [OF curr, of ?h5] grow_chunks(1) [OF p, of C a] by simp
    have 3: "set [length (chunks h)] \<inter> set (skip_empty h qs) = {}" using qb by auto
    have itl': "iterate h (Some a) =
        Some (Inr (Some \<lparr>it_obj = Some a, it_chunk = None, it_index = 0\<rparr>))"
      using itl True by (simp add: chain_head_def)
    have "add C h (Some a) (Some b) = add_tail C ?h5 ?li2 ?ri (Some a)"
      using add_unfold_empty [OF itl' itr C a lst p] .
    with add_tail_returns [OF 1 2 3, of "Some a"] show ?thesis by simp
  next
    case False
    have 1: "acc_inv C h ?li a (skip_empty h ps)"
      using False curl C a lst skip_empty_last [OF False] by (simp add: acc_inv_def)
    have 3: "set (skip_empty h ps) \<inter> set (skip_empty h qs) = {}"
      using skip_empty_subset [of h ps] qb by auto
    have "it_chunk ?li \<noteq> None" using False by (cases "skip_empty h ps") (simp_all add: chain_head_def)
    then have "add C h (Some a) (Some b) = add_tail C h ?li ?ri (Some a)"
      using add_unfold_nonempty [OF itl itr] by simp
    with add_tail_returns [OF 1 curr 3, of "Some a"] show ?thesis by simp
  qed
qed

theorem add_returns_on_disjoint_containers_witness:
  "0 < (4::nat) \<and> chain_inv pair4 0 [0] \<and> lengths_inv 4 pair4 [0] \<and>
   chain_inv pair4 1 [1] \<and> lengths_inv 4 pair4 [1] \<and> set [0::nat] \<inter> set [1] = {} \<and>
   (\<exists>h'. add 4 pair4 (Some 0) (Some 1) = Some (Inr (h', Some 0)))"
proof -
  have 1: "chain_inv pair4 0 [0]" by code_simp
  have 2: "lengths_inv 4 pair4 [0]" by code_simp
  have 3: "chain_inv pair4 1 [1]" by code_simp
  have 4: "lengths_inv 4 pair4 [1]" by code_simp
  have 5: "set [0::nat] \<inter> set [1] = {}" by simp
  have 0: "0 < (4::nat)" by simp
  from add_returns_on_disjoint_containers [OF 0 1 2 3 4 5] 0 1 2 3 4 5 show ?thesis by simp
qed


text \<open>
  C10, as stated, includes the call with \<open>a\<close> and \<open>b\<close> the same container. There the call
  never returns: the addend's cursor follows the chunks the accumulator's cursor appends.
  For a fresh container \<open>a\<close>, \<^verbatim>\<open>add(a, a)\<close> has no result.
\<close>

theorem add_same_container_diverges:
  "chain_inv fresh4 0 [0] \<and> lengths_inv 4 fresh4 [0] \<and> add 4 fresh4 (Some 0) (Some 0) = None"
proof -
  have it: "iterate fresh4 (Some 0) =
      Some (Inr (Some \<lparr>it_obj = Some 0, it_chunk = Some 0, it_index = 0\<rparr>))"
    by code_simp
  have "add 4 fresh4 (Some 0) (Some 0) = None"
    using add_unfold_nonempty [OF it it, of 4] add_main_alias_diverges [OF fresh4_alias, of 0]
    by (simp add: add_tail_def)
  moreover have "chain_inv fresh4 0 [0]" by code_simp
  moreover have "lengths_inv 4 fresh4 [0]" by code_simp
  ultimately show ?thesis by simp
qed

end
